theory Spec2Isabelle
  imports Complex_Main "HOL-Library.Sublist" "HOL-Library.Char_ord" "HOL-Library.List_Lexorder"
begin

section \<open>Python values used by the scripts\<close>

text \<open>
  The scripts are Python. A \<open>str\<close> is modelled as a \<open>string\<close> whose characters are
  code points below 256; exceptions are values of \<open>py_error\<close> and a function that can
  raise returns \<open>py_error + 'a\<close>.
\<close>

datatype py_error =
    ZeroDivisionError
  | ValueError
  | AttributeError
  | IndexError
  | FileNotFoundError
  | JSONDecodeError
  | OSError
  | SystemExit
  | KeyboardInterrupt

text \<open>\<open>except Exception\<close> catches every error but the two that are not an \<open>Exception\<close>.\<close>

definition is_Exception :: "py_error \<Rightarrow> bool" where
  "is_Exception e \<longleftrightarrow> e \<noteq> SystemExit \<and> e \<noteq> KeyboardInterrupt"

text \<open>\<open>sub in s\<close> on strings: \<open>sub\<close> occurs in \<open>s\<close> as a contiguous block.\<close>

fun str_in :: "string \<Rightarrow> string \<Rightarrow> bool" where
  "str_in sub [] = (sub = [])"
| "str_in sub (c # cs) = (prefix sub (c # cs) \<or> str_in sub cs)"

text \<open>\<open>s.split(sep)\<close> for a one-character separator: never an empty list.\<close>

fun split_on :: "char \<Rightarrow> string \<Rightarrow> string list" where
  "split_on sep [] = [[]]"
| "split_on sep (c # cs) =
     (if c = sep then [] # split_on sep cs
      else (case split_on sep cs of
              [] \<Rightarrow> [[c]]
            | w # ws \<Rightarrow> (c # w) # ws))"

text \<open>\<open>sep.join(xs)\<close> for a one-character separator.\<close>

fun join_with :: "char \<Rightarrow> string list \<Rightarrow> string" where
  "join_with sep [] = []"
| "join_with sep [x] = x"
| "join_with sep (x # y # ys) = x @ sep # join_with sep (y # ys)"

text \<open>
  \<open>str.isspace\<close> on the code points below 256: tab, line feed, vertical tab, form
  feed, carriage return, the four separators 28 to 31, space, next line (133) and
  no-break space (160).
\<close>

definition is_space :: "char \<Rightarrow> bool" where
  "is_space c =
     (let n = of_char c :: nat
      in (9 \<le> n \<and> n \<le> 13) \<or> (28 \<le> n \<and> n \<le> 32) \<or> n = 133 \<or> n = 160)"

definition strip :: "string \<Rightarrow> string" where
  "strip s = rev (dropWhile is_space (rev (dropWhile is_space s)))"

definition is_digit :: "char \<Rightarrow> bool" where
  "is_digit c = (let n = of_char c :: nat in 48 \<le> n \<and> n \<le> 57)"

definition digit_val :: "char \<Rightarrow> nat" where
  "digit_val c = of_char c - 48"


section \<open>Severity deltas (lab78\_final/analyze\_results.py)\<close>

text \<open>
  \<open>answer_rq1\<close> and \<open>answer_rq2\<close> add three columns per severity level to the data
  frame of a repository: \<open>X_severity_change = df[X_severity].diff()\<close>, then
  \<open>X_severity_introduced\<close> and \<open>X_severity_fixed\<close> by applying \<open>max(0, x)\<close> and
  \<open>max(0, -x)\<close> to the change. The counts are integers; \<open>diff\<close> leaves the first row
  without a value (NaN), and \<open>max(0, nan)\<close> is \<open>0\<close> because no comparison with NaN holds.
\<close>

datatype level = HIGH | MEDIUM | LOW

text \<open>
  A row of the data frame has the columns of \<open>results.csv\<close>: those of the commit and
  the values of the metrics dictionary that \<open>run_bandit_analysis.py\<close> builds for the
  commit. The six counters are the record \<open>metrics\<close>; a row is any record that extends
  it.
\<close>

record metrics =
  high_confidence :: int
  medium_confidence :: int
  low_confidence :: int
  high_severity :: int
  medium_severity :: int
  low_severity :: int

fun severity :: "level \<Rightarrow> 'a metrics_scheme \<Rightarrow> int" where
  "severity HIGH r = high_severity r"
| "severity MEDIUM r = medium_severity r"
| "severity LOW r = low_severity r"

text \<open>\<open>Series.diff()\<close>: \<open>None\<close> is NaN.\<close>

fun series_diff :: "int list \<Rightarrow> int option list" where
  "series_diff [] = []"
| "series_diff (x # xs) = None # map2 (\<lambda>p c. Some (c - p)) (x # xs) xs"

text \<open>\<open>lambda x: max(0, x)\<close> and \<open>lambda x: max(0, -x)\<close> on a cell of the change column.\<close>

fun introduced_of :: "int option \<Rightarrow> int" where
  "introduced_of None = 0"
| "introduced_of (Some x) = max 0 x"

fun fixed_of :: "int option \<Rightarrow> int" where
  "fixed_of None = 0"
| "fixed_of (Some x) = max 0 (- x)"

definition severity_change :: "level \<Rightarrow> 'a metrics_scheme list \<Rightarrow> int option list" where
  "severity_change lvl df = series_diff (map (severity lvl) df)"

definition severity_introduced :: "level \<Rightarrow> 'a metrics_scheme list \<Rightarrow> int list" where
  "severity_introduced lvl df = map introduced_of (severity_change lvl df)"

definition severity_fixed :: "level \<Rightarrow> 'a metrics_scheme list \<Rightarrow> int list" where
  "severity_fixed lvl df = map fixed_of (severity_change lvl df)"


section \<open>Pytest output parsing (lab6\_final)\<close>

text \<open>\<open>result.stdout.strip().split("\n")\<close>.\<close>

definition stdout_lines :: "string \<Rightarrow> string list" where
  "stdout_lines out = split_on (CHR 0x0A) (strip out)"

text \<open>
  \<open>parts = line.split(" "); test_name = parts[0]\<close>. \<open>split\<close> never returns an empty
  list, so the index never fails.
\<close>

definition first_field :: "string \<Rightarrow> string" where
  "first_field line = (case split_on (CHR '' '') line of [] \<Rightarrow> [] | p # ps \<Rightarrow> p)"

subsection \<open>sequential-test-script.py: \<open>run_sequential_tests\<close>\<close>

text \<open>
  The body of the loop over the lines: a line with one of the three markers gives a
  test name and a status, any other line gives nothing.
\<close>

definition seq_line_result :: "string \<Rightarrow> (string \<times> string) option" where
  "seq_line_result line =
     (if str_in '' PASSED '' line \<or> str_in '' FAILED '' line \<or> str_in '' ERROR '' line
      then Some (first_field line,
                 if str_in '' PASSED '' line then ''PASSED'' else ''FAILED'')
      else None)"

text \<open>
  \<open>test_results\<close> is a \<open>defaultdict(list)\<close>; a dict keeps its keys in insertion order,
  so it is an association list with one entry per key.
\<close>

type_synonym test_results = "(string \<times> string list) list"

text \<open>\<open>test_results[test_name].append(status)\<close>\<close>

fun record_result :: "test_results \<Rightarrow> string \<Rightarrow> string \<Rightarrow> test_results" where
  "record_result [] n s = [(n, [s])]"
| "record_result ((k, rs) # tr) n s =
     (if k = n then (k, rs @ [s]) # tr else (k, rs) # record_result tr n s)"

definition seq_parse_line :: "test_results \<Rightarrow> string \<Rightarrow> test_results" where
  "seq_parse_line tr line =
     (case seq_line_result line of
        None \<Rightarrow> tr
      | Some (n, s) \<Rightarrow> record_result tr n s)"

definition seq_parse_output :: "test_results \<Rightarrow> string \<Rightarrow> test_results" where
  "seq_parse_output tr out = foldl seq_parse_line tr (stdout_lines out)"

text \<open>The loop over \<open>test_results.items()\<close> with its \<open>if\<close>/\<open>elif\<close>.\<close>

fun classify :: "test_results \<Rightarrow> string list \<times> string list" where
  "classify [] = ([], [])"
| "classify ((n, rs) # tr) =
     (let (failing, flaky) = classify tr
      in if list_all (\<lambda>r. r = ''FAILED'') rs then (n # failing, flaky)
         else if ''PASSED'' \<in> set rs \<and> ''FAILED'' \<in> set rs then (failing, n # flaky)
         else (failing, flaky))"

text \<open>
  \<open>run_sequential_tests\<close>, given the standard output of each of the \<open>iterations\<close>
  pytest runs. With no iteration the average printed before returning divides by
  \<open>len(execution_times) = 0\<close>.
\<close>

definition run_sequential_tests :: "string list \<Rightarrow> py_error + (string list \<times> string list)" where
  "run_sequential_tests outs =
     (let test_results = foldl seq_parse_output [] outs
      in if outs = [] then Inl ZeroDivisionError else Inr (classify test_results))"

subsection \<open>parallel-test-script.py\<close>

text \<open>The failing tests of one run: the lines with a FAILED or ERROR marker.\<close>

definition par_failing_tests :: "string \<Rightarrow> string list" where
  "par_failing_tests out =
     map first_field
       (filter (\<lambda>line. str_in '' FAILED '' line \<or> str_in '' ERROR '' line) (stdout_lines out))"

record config =
  worker_count :: string
  thread_count :: string
  dist_mode :: string

definition pytest_cmd :: "config \<Rightarrow> string list" where
  "pytest_cmd c =
     [''pytest'']
     @ (if worker_count c \<noteq> ''1'' then [''-n'', worker_count c] else [])
     @ (if dist_mode c \<noteq> ''no'' then [''--dist'', dist_mode c] else [])
     @ (if thread_count c \<noteq> ''1'' then [''--parallel-threads'', thread_count c] else [])"

record par_result =
  config_of :: config
  tpar :: real
  avg_time :: real
  times :: "real list"
  failures :: "nat list"
  failing_tests :: "string list list"
  flaky_tests :: "string list"

record speedup_result = par_result +
  speedup :: real
  tseq_used :: real

text \<open>
  The world is a function \<open>exec\<close>: the command and the number of the iteration give
  the wall-clock time of the run and its standard output. Times are real numbers;
  the rounding of the floating-point sum and quotient is not modelled. The order in
  which Python walks the set \<open>all_tests\<close> is not fixed; the model takes first
  occurrence.
\<close>

definition run_parallel_tests ::
  "(string list \<Rightarrow> nat \<Rightarrow> real \<times> string) \<Rightarrow> config \<Rightarrow> nat \<Rightarrow> py_error + par_result" where
  "run_parallel_tests exec c iterations =
     (let runs = map (exec (pytest_cmd c)) [0..<iterations];
          execution_times = map fst runs;
          all_failing_tests = map (\<lambda>r. par_failing_tests (snd r)) runs;
          all_tests = remdups (concat all_failing_tests);
          flaky = filter (\<lambda>t. let counts = length (filter (\<lambda>tests. t \<in> set tests) all_failing_tests)
                                in 0 < counts \<and> counts < iterations) all_tests
      in if length execution_times = 0 then Inl ZeroDivisionError
         else Inr \<lparr>config_of = c,
                   tpar = sum_list execution_times / real (length execution_times),
                   avg_time = sum_list execution_times / real (length execution_times),
                   times = execution_times,
                   failures = map length all_failing_tests,
                   failing_tests = all_failing_tests,
                   flaky_tests = flaky\<rparr>)"

definition calculate_speedup :: "real \<Rightarrow> real \<Rightarrow> py_error + real" where
  "calculate_speedup sequential_time parallel_time =
     (if parallel_time = 0 then Inl ZeroDivisionError
      else Inr (sequential_time / parallel_time))"

definition configurations :: "config list" where
  "configurations =
     [\<lparr>worker_count = ''1'', thread_count = ''1'', dist_mode = ''no''\<rparr>,
      \<lparr>worker_count = ''auto'', thread_count = ''1'', dist_mode = ''no''\<rparr>,
      \<lparr>worker_count = ''1'', thread_count = ''1'', dist_mode = ''load''\<rparr>,
      \<lparr>worker_count = ''auto'', thread_count = ''1'', dist_mode = ''load''\<rparr>,
      \<lparr>worker_count = ''1'', thread_count = ''auto'', dist_mode = ''no''\<rparr>,
      \<lparr>worker_count = ''1'', thread_count = ''auto'', dist_mode = ''load''\<rparr>,
      \<lparr>worker_count = ''auto'', thread_count = ''auto'', dist_mode = ''no''\<rparr>,
      \<lparr>worker_count = ''auto'', thread_count = ''auto'', dist_mode = ''load''\<rparr>]"

text \<open>
  The loop of \<open>execute_all_configurations\<close> over the configurations, each run with the
  default three iterations; an exception ends the loop.
\<close>

fun run_configurations ::
  "(string list \<Rightarrow> nat \<Rightarrow> real \<times> string) \<Rightarrow> real \<Rightarrow> config list \<Rightarrow> py_error + speedup_result list" where
  "run_configurations exec tseq [] = Inr []"
| "run_configurations exec tseq (c # cs) =
     (case run_parallel_tests exec c 3 of
        Inl e \<Rightarrow> Inl e
      | Inr result \<Rightarrow>
          (case calculate_speedup tseq (tpar result) of
             Inl e \<Rightarrow> Inl e
           | Inr s \<Rightarrow>
               (case run_configurations exec tseq cs of
                  Inl e \<Rightarrow> Inl e
                | Inr results \<Rightarrow>
                    Inr (par_result.extend result \<lparr>speedup = s, tseq_used = tseq\<rparr> # results))))"

definition execute_all_configurations ::
  "(string list \<Rightarrow> nat \<Rightarrow> real \<times> string) \<Rightarrow> real \<Rightarrow> py_error + speedup_result list" where
  "execute_all_configurations exec tseq = run_configurations exec tseq configurations"


subsection \<open>Specification of the recorded statuses\<close>

text \<open>
  The statuses recorded for a test over all runs, read off the parsed lines in order,
  and the statuses a dictionary holds for a test (none for a missing key). A
  dictionary is well formed when its keys are distinct and no status list is empty.
\<close>

definition recorded_statuses :: "string list \<Rightarrow> string \<Rightarrow> string list" where
  "recorded_statuses outs t =
     map snd (filter (\<lambda>p. fst p = t)
       (List.map_filter seq_line_result (concat (map stdout_lines outs))))"

definition statuses_in :: "test_results \<Rightarrow> string \<Rightarrow> string list" where
  "statuses_in tr t = (case map_of tr t of None \<Rightarrow> [] | Some rs \<Rightarrow> rs)"

definition line_statuses :: "string \<Rightarrow> string list \<Rightarrow> string list" where
  "line_statuses t ls = map snd (filter (\<lambda>p. fst p = t) (List.map_filter seq_line_result ls))"

definition wf_results :: "test_results \<Rightarrow> bool" where
  "wf_results tr \<longleftrightarrow> distinct (map fst tr) \<and> (\<forall>p \<in> set tr. snd p \<noteq> [])"


text \<open>
  The per-iteration wall-clock times of a configuration, read off the world, and what
  is recorded for one configuration.
\<close>

definition config_times :: "(string list \<Rightarrow> nat \<Rightarrow> real \<times> string) \<Rightarrow> config \<Rightarrow> nat \<Rightarrow> real list" where
  "config_times exec c n = map (\<lambda>i. fst (exec (pytest_cmd c) i)) [0..<n]"

definition speedup_ok ::
  "(string list \<Rightarrow> nat \<Rightarrow> real \<times> string) \<Rightarrow> real \<Rightarrow> speedup_result \<Rightarrow> bool" where
  "speedup_ok exec tseq r \<longleftrightarrow>
     times r = config_times exec (config_of r) 3
     \<and> times r \<noteq> []
     \<and> tpar r = sum_list (times r) / real (length (times r))
     \<and> tpar r \<noteq> 0
     \<and> speedup r = tseq / tpar r
     \<and> tseq_used r = tseq"


subsection \<open>The lines of the output, read without the loop\<close>







section \<open>Coverage ratios (lab5\_final)\<close>

text \<open>
  A coverage report is the JSON of coverage.py. Its \<open>totals\<close> and each file's
  \<open>summary\<close> are dictionaries from a key to a number; numbers are real numbers here.
  A key that is absent is \<open>None\<close>, and \<open>d.get(k, default)\<close> is \<open>dict_get\<close>.
\<close>

type_synonym num_dict = "string \<rightharpoonup> real"

definition dict_get :: "('k \<rightharpoonup> 'v) \<Rightarrow> 'k \<Rightarrow> 'v \<Rightarrow> 'v" where
  "dict_get d k dflt = (case d k of None \<Rightarrow> dflt | Some v \<Rightarrow> v)"

text \<open>Python's \<open>a / b\<close>: a zero divisor raises.\<close>

definition truediv :: "real \<Rightarrow> real \<Rightarrow> py_error + real" where
  "truediv a b = (if b = 0 then Inl ZeroDivisionError else Inr (a / b))"

text \<open>
  \<open>totals\<close> is \<open>None\<close> when the report has no \<open>totals\<close> key (the empty report \<open>{}\<close> of a
  missing file among them); \<open>files\<close> lists each path with its \<open>summary\<close>, if it has one.
\<close>

record coverage_json =
  totals :: "num_dict option"
  files :: "(string \<times> num_dict option) list"

subsection \<open>coverage-comparison.py: \<open>extract_coverage_metrics\<close>\<close>

record coverage_metrics =
  line_coverage :: real
  branch_coverage :: real
  missing_lines :: real
  num_statements :: real

definition extract_coverage_metrics :: "coverage_json \<Rightarrow> py_error + coverage_metrics" where
  "extract_coverage_metrics data =
     (case totals data of
        None \<Rightarrow>
          Inr \<lparr>line_coverage = 0, branch_coverage = 0, missing_lines = 0, num_statements = 0\<rparr>
      | Some t \<Rightarrow>
          (case (if dict_get t ''num_statements'' 0 > 0
                 then truediv (dict_get t ''covered_lines'' 0) (dict_get t ''num_statements'' 1)
                 else Inr 0) of
             Inl e \<Rightarrow> Inl e
           | Inr lc \<Rightarrow>
               Inr \<lparr>line_coverage = lc,
                    branch_coverage =
                      (case t ''percent_covered'' of None \<Rightarrow> 0 | Some p \<Rightarrow> p / 100),
                    missing_lines = dict_get t ''missing_lines'' 0,
                    num_statements = dict_get t ''num_statements'' 0\<rparr>))"

subsection \<open>module-level-coverage.py: \<open>extract_module_metrics\<close>\<close>

text \<open>The three counters of a module, and the entry once its coverage is added.\<close>

record module_counts =
  total_lines :: real
  covered_lines :: real
  file_count :: nat

record module_metrics = module_counts +
  coverage :: real

definition skip_file :: "string \<Rightarrow> bool" where
  "skip_file file_path \<longleftrightarrow>
     str_in ''/tests/'' file_path \<or> str_in ''pynguin_tests'' file_path
     \<or> suffix ''__init__.py'' file_path"

text \<open>
  \<open>re.search(r'algorithms/([^/]+)', file_path)\<close>: the first place where
  \<open>algorithms/\<close> is followed by a character other than \<open>/\<close>; the group is the longest
  run of such characters.
\<close>

fun module_search :: "string \<Rightarrow> string option" where
  "module_search [] = None"
| "module_search (c # cs) =
     (if prefix ''algorithms/'' (c # cs)
         \<and> takeWhile (\<lambda>x. x \<noteq> CHR ''/'') (drop 11 (c # cs)) \<noteq> []
      then Some (takeWhile (\<lambda>x. x \<noteq> CHR ''/'') (drop 11 (c # cs)))
      else module_search cs)"

text \<open>
  What one file adds: nothing when the loop \<open>continue\<close>s or the pattern does not match,
  otherwise the module name with the file's covered and total lines.
\<close>

definition file_entry :: "string \<times> num_dict option \<Rightarrow> (string \<times> real \<times> real) option" where
  "file_entry fe =
     (case fe of (file_path, file_data) \<Rightarrow>
        if skip_file file_path then None
        else (case module_search file_path of
                None \<Rightarrow> None
              | Some module_name \<Rightarrow>
                  if module_name = ''tests'' \<or> module_name = ''pynguin_tests'' then None
                  else (let summary = (case file_data of None \<Rightarrow> Map.empty | Some s \<Rightarrow> s)
                        in Some (module_name,
                                 dict_get summary ''covered_lines'' 0,
                                 dict_get summary ''num_statements'' 0))))"

text \<open>
  \<open>module_metrics\<close> is a \<open>defaultdict\<close>: a new module starts from zero at the end of the
  dictionary.
\<close>

fun bump_module ::
  "(string \<times> module_counts) list \<Rightarrow> string \<Rightarrow> real \<Rightarrow> real \<Rightarrow> (string \<times> module_counts) list" where
  "bump_module [] m cov tot =
     [(m, \<lparr>total_lines = 0 + tot, covered_lines = 0 + cov, file_count = 0 + 1\<rparr>)]"
| "bump_module ((k, a) # ms) m cov tot =
     (if k = m
      then (k, \<lparr>total_lines = total_lines a + tot, covered_lines = covered_lines a + cov,
                file_count = file_count a + 1\<rparr>) # ms
      else (k, a) # bump_module ms m cov tot)"

definition module_step ::
  "(string \<times> module_counts) list \<Rightarrow> string \<times> num_dict option \<Rightarrow> (string \<times> module_counts) list" where
  "module_step acc fe =
     (case file_entry fe of
        None \<Rightarrow> acc
      | Some (m, cov, tot) \<Rightarrow> bump_module acc m cov tot)"

text \<open>The second loop: the coverage of each module.\<close>

fun add_coverage :: "(string \<times> module_counts) list \<Rightarrow> py_error + (string \<times> module_metrics) list" where
  "add_coverage [] = Inr []"
| "add_coverage ((m, a) # ms) =
     (case (if total_lines a > 0 then truediv (covered_lines a) (total_lines a) else Inr 0) of
        Inl e \<Rightarrow> Inl e
      | Inr cv \<Rightarrow>
          (case add_coverage ms of
             Inl e \<Rightarrow> Inl e
           | Inr rest \<Rightarrow> Inr ((m, module_counts.extend a \<lparr>coverage = cv\<rparr>) # rest)))"

definition extract_module_metrics :: "coverage_json \<Rightarrow> py_error + (string \<times> module_metrics) list" where
  "extract_module_metrics coverage_data = add_coverage (foldl module_step [] (files coverage_data))"

text \<open>
  The files a report contributes, and the sums of the covered and of the total lines
  of the files of one module.
\<close>

definition kept_files :: "coverage_json \<Rightarrow> (string \<times> real \<times> real) list" where
  "kept_files data = List.map_filter file_entry (files data)"

definition module_covered :: "(string \<times> real \<times> real) list \<Rightarrow> string \<Rightarrow> real" where
  "module_covered es m = sum_list (map (\<lambda>e. fst (snd e)) (filter (\<lambda>e. fst e = m) es))"

definition module_total :: "(string \<times> real \<times> real) list \<Rightarrow> string \<Rightarrow> real" where
  "module_total es m = sum_list (map (\<lambda>e. snd (snd e)) (filter (\<lambda>e. fst e = m) es))"

definition counts_of :: "(string \<times> module_counts) list \<Rightarrow> string \<Rightarrow> real \<times> real" where
  "counts_of acc m =
     (case map_of acc m of None \<Rightarrow> (0, 0) | Some a \<Rightarrow> (covered_lines a, total_lines a))"

text \<open>An entry of the result against the counters it was made from.\<close>

definition with_coverage :: "module_counts \<Rightarrow> module_metrics \<Rightarrow> bool" where
  "with_coverage a m \<longleftrightarrow>
     covered_lines m = covered_lines a \<and> total_lines m = total_lines a
     \<and> file_count m = file_count a
     \<and> coverage m = (if 0 < total_lines a then covered_lines a / total_lines a else 0)"


text \<open>
  What the report says, read without the loop. The module a path is counted under:
  none for a path that is skipped, that does not match or that names a test
  directory. The value of a key of a file's \<open>summary\<close>, 0 when the key or the summary
  is absent. The sum of a key over the files of a module.
\<close>

definition path_module :: "string \<Rightarrow> string option" where
  "path_module file_path =
     (if sublist ''/tests/'' file_path \<or> sublist ''pynguin_tests'' file_path
         \<or> suffix ''__init__.py'' file_path
      then None
      else (case module_search file_path of
              None \<Rightarrow> None
            | Some m \<Rightarrow> if m = ''tests'' \<or> m = ''pynguin_tests'' then None else Some m))"

definition summary_value :: "num_dict option \<Rightarrow> string \<Rightarrow> real" where
  "summary_value file_data key =
     (case file_data of
        None \<Rightarrow> 0
      | Some summary \<Rightarrow> (case summary key of None \<Rightarrow> 0 | Some v \<Rightarrow> v))"

definition module_sum :: "coverage_json \<Rightarrow> string \<Rightarrow> string \<Rightarrow> real" where
  "module_sum data key m =
     sum_list (map (\<lambda>fe. summary_value (snd fe) key)
                (filter (\<lambda>fe. path_module (fst fe) = Some m) (files data)))"


section \<open>Bandit metrics per commit (lab78\_final/run\_bandit\_analysis.py)\<close>

text \<open>
  What opening and decoding a JSON file can give: the file is missing
  (\<open>FileNotFoundError\<close>), it cannot be read (another \<open>OSError\<close>), it is not JSON
  (\<open>JSONDecodeError\<close>), or it decodes to a value.
\<close>

datatype 'a file_state = Missing | Unreadable | Malformed | Content 'a

text \<open>\<open>with open(path, 'r') as f: data = json.load(f)\<close>\<close>

definition open_json :: "'a file_state \<Rightarrow> py_error + 'a" where
  "open_json f =
     (case f of
        Missing \<Rightarrow> Inl FileNotFoundError
      | Unreadable \<Rightarrow> Inl OSError
      | Malformed \<Rightarrow> Inl JSONDecodeError
      | Content d \<Rightarrow> Inr d)"

text \<open>
  A Bandit report, as far as \<open>parse_bandit_results\<close> reads it. A key that a finding
  does not have is \<open>None\<close>; \<open>issue_cwe\<close> is \<open>Some None\<close> when the finding has the key
  without an \<open>id\<close> in it, and \<open>Some (Some n)\<close> when the id is \<open>n\<close>.
\<close>

record finding =
  issue_confidence :: "string option"
  issue_severity :: "string option"
  issue_cwe :: "int option option"
  issue_text :: "string option"

record bandit_report =
  results :: "finding list option"

text \<open>\<open>str(n)\<close> for an integer.\<close>

fun str_nat :: "nat \<Rightarrow> string" where
  "str_nat n =
     (if n < 10 then [char_of (48 + n)]
      else str_nat (n div 10) @ [char_of (48 + n mod 10)])"

definition str_int :: "int \<Rightarrow> string" where
  "str_int i = (if i < 0 then CHR ''-'' # str_nat (nat (- i)) else str_nat (nat i))"

text \<open>
  \<open>re.search(r'CWE-(\d+)', text)\<close>: the first place where \<open>CWE-\<close> is followed by a
  digit; the group is the longest run of digits there.
\<close>

fun cwe_search :: "string \<Rightarrow> string option" where
  "cwe_search [] = None"
| "cwe_search (c # cs) =
     (if prefix ''CWE-'' (c # cs) \<and> takeWhile is_digit (drop 4 (c # cs)) \<noteq> []
      then Some (takeWhile is_digit (drop 4 (c # cs)))
      else cwe_search cs)"

text \<open>
  The metrics dictionary of a commit: the six counters and \<open>unique_cwes\<close>, a set.
  \<open>parse_bandit_results\<close> ends with \<open>list(metrics['unique_cwes'])\<close>, which lists each
  element once in an order that depends on the hash seed of the process. The result
  stays a set here, and the order is a parameter, \<open>listing\<close>, of the one place that
  reads it: the text of the field that \<open>main\<close> writes.
\<close>

record bandit_metrics = metrics +
  unique_cwes :: "string set"

definition count_confidence :: "bandit_metrics \<Rightarrow> finding \<Rightarrow> bandit_metrics" where
  "count_confidence m r =
     (if issue_confidence r = Some ''HIGH'' then m\<lparr>high_confidence := high_confidence m + 1\<rparr>
      else if issue_confidence r = Some ''MEDIUM''
        then m\<lparr>medium_confidence := medium_confidence m + 1\<rparr>
      else if issue_confidence r = Some ''LOW'' then m\<lparr>low_confidence := low_confidence m + 1\<rparr>
      else m)"

definition count_severity :: "bandit_metrics \<Rightarrow> finding \<Rightarrow> bandit_metrics" where
  "count_severity m r =
     (if issue_severity r = Some ''HIGH'' then m\<lparr>high_severity := high_severity m + 1\<rparr>
      else if issue_severity r = Some ''MEDIUM''
        then m\<lparr>medium_severity := medium_severity m + 1\<rparr>
      else if issue_severity r = Some ''LOW'' then m\<lparr>low_severity := low_severity m + 1\<rparr>
      else m)"

definition collect_cwe :: "bandit_metrics \<Rightarrow> finding \<Rightarrow> bandit_metrics" where
  "collect_cwe m r =
     (case issue_cwe r of
        Some (Some n) \<Rightarrow> m\<lparr>unique_cwes := insert (str_int n) (unique_cwes m)\<rparr>
      | _ \<Rightarrow>
          (case cwe_search (case issue_text r of None \<Rightarrow> [] | Some t \<Rightarrow> t) of
             Some d \<Rightarrow> m\<lparr>unique_cwes := insert d (unique_cwes m)\<rparr>
           | None \<Rightarrow> m))"

text \<open>The body of the loop over the findings.\<close>

definition count_finding :: "bandit_metrics \<Rightarrow> finding \<Rightarrow> bandit_metrics" where
  "count_finding m r = collect_cwe (count_severity (count_confidence m r) r) r"

definition initial_metrics :: bandit_metrics where
  "initial_metrics =
     \<lparr>high_confidence = 0, medium_confidence = 0, low_confidence = 0,
      high_severity = 0, medium_severity = 0, low_severity = 0, unique_cwes = {}\<rparr>"

text \<open>
  \<open>parse_bandit_results\<close>: any exception while opening or decoding the file is caught,
  and the function returns \<open>None\<close>.
\<close>

definition parse_bandit_results :: "bandit_report file_state \<Rightarrow> bandit_metrics option" where
  "parse_bandit_results output_file =
     (case open_json output_file of
        Inl e \<Rightarrow> None
      | Inr data \<Rightarrow>
          Some (foldl count_finding initial_metrics
                  (case results data of None \<Rightarrow> [] | Some rs \<Rightarrow> rs)))"

text \<open>The name of a level in the report, and the confidence counter of a level.\<close>

fun level_name :: "level \<Rightarrow> string" where
  "level_name HIGH = ''HIGH''"
| "level_name MEDIUM = ''MEDIUM''"
| "level_name LOW = ''LOW''"

fun confidence :: "level \<Rightarrow> 'a metrics_scheme \<Rightarrow> int" where
  "confidence HIGH m = high_confidence m"
| "confidence MEDIUM m = medium_confidence m"
| "confidence LOW m = low_confidence m"

definition findings_of :: "bandit_report \<Rightarrow> finding list" where
  "findings_of data = (case results data of None \<Rightarrow> [] | Some rs \<Rightarrow> rs)"


subsection \<open>The commit loop of \<open>main\<close>\<close>

record commit =
  hash :: string
  author :: string
  timestamp :: int
  date :: string
  message :: string

text \<open>
  The row that \<open>writer.writerow\<close> receives for a commit with metrics; \<open>listing\<close> is the
  order in which the process lists a set.
\<close>

definition csv_row :: "(string set \<Rightarrow> string list) \<Rightarrow> commit \<Rightarrow> bandit_metrics \<Rightarrow> string list" where
  "csv_row listing c m =
     [hash c, author c, date c, message c,
      str_int (high_confidence m), str_int (medium_confidence m), str_int (low_confidence m),
      str_int (high_severity m), str_int (medium_severity m), str_int (low_severity m),
      join_with (CHR '','') (listing (unique_cwes m))]"

datatype log_entry =
    Error_parsing string
  | Error_processing_commit string py_error

text \<open>
  The world is \<open>bandit\<close>: \<open>run_bandit_on_commit\<close> for a commit hash either raises or
  leaves the output file of that commit in some state. The state of the loop is the
  rows written so far and the messages printed. An error that is not an \<open>Exception\<close>
  ends the loop.
\<close>

definition process_commit ::
  "(string set \<Rightarrow> string list) \<Rightarrow> (string \<Rightarrow> py_error + bandit_report file_state)
     \<Rightarrow> string list list \<times> log_entry list
     \<Rightarrow> commit \<Rightarrow> py_error + string list list \<times> log_entry list" where
  "process_commit listing bandit st c =
     (case st of (rows, printed) \<Rightarrow>
        (case bandit (hash c) of
           Inl e \<Rightarrow>
             if is_Exception e then Inr (rows, printed @ [Error_processing_commit (hash c) e])
             else Inl e
         | Inr output_file \<Rightarrow>
             (case parse_bandit_results output_file of
                None \<Rightarrow> Inr (rows, printed @ [Error_parsing (hash c)])
              | Some m \<Rightarrow> Inr (rows @ [csv_row listing c m], printed))))"

fun commit_loop ::
  "(string set \<Rightarrow> string list) \<Rightarrow> (string \<Rightarrow> py_error + bandit_report file_state)
     \<Rightarrow> string list list \<times> log_entry list
     \<Rightarrow> commit list \<Rightarrow> py_error + string list list \<times> log_entry list" where
  "commit_loop listing bandit st [] = Inr st"
| "commit_loop listing bandit st (c # cs) =
     (case process_commit listing bandit st c of
        Inl e \<Rightarrow> Inl e
      | Inr st' \<Rightarrow> commit_loop listing bandit st' cs)"

text \<open>
  What \<open>parse_bandit_results\<close> returned for a commit, if it was reached; the row and the
  message of a commit; whether a commit ends the loop.
\<close>

definition commit_metrics ::
  "(string \<Rightarrow> py_error + bandit_report file_state) \<Rightarrow> commit \<Rightarrow> bandit_metrics option" where
  "commit_metrics bandit c =
     (case bandit (hash c) of Inl e \<Rightarrow> None | Inr f \<Rightarrow> parse_bandit_results f)"

definition commit_row ::
  "(string set \<Rightarrow> string list) \<Rightarrow> (string \<Rightarrow> py_error + bandit_report file_state)
     \<Rightarrow> commit \<Rightarrow> string list option" where
  "commit_row listing bandit c = map_option (csv_row listing c) (commit_metrics bandit c)"

definition commit_message ::
  "(string \<Rightarrow> py_error + bandit_report file_state) \<Rightarrow> commit \<Rightarrow> log_entry option" where
  "commit_message bandit c =
     (case bandit (hash c) of
        Inl e \<Rightarrow> Some (Error_processing_commit (hash c) e)
      | Inr f \<Rightarrow>
          (case parse_bandit_results f of
             None \<Rightarrow> Some (Error_parsing (hash c))
           | Some m \<Rightarrow> None))"

definition interrupts ::
  "(string \<Rightarrow> py_error + bandit_report file_state) \<Rightarrow> commit \<Rightarrow> bool" where
  "interrupts bandit c =
     (case bandit (hash c) of Inl e \<Rightarrow> \<not> is_Exception e | Inr f \<Rightarrow> False)"

subsection \<open>Loading with a default\<close>

text \<open>The empty report \<open>{}\<close>.\<close>

definition empty_coverage :: coverage_json where
  "empty_coverage = \<lparr>totals = None, files = []\<rparr>"

text \<open>
  One \<open>try\<close> block of \<open>load_coverage_data\<close> (lab5): only \<open>FileNotFoundError\<close> is caught.
\<close>

definition load_or_empty :: "coverage_json file_state \<Rightarrow> py_error + coverage_json" where
  "load_or_empty f =
     (case open_json f of
        Inl e \<Rightarrow> if e = FileNotFoundError then Inr empty_coverage else Inl e
      | Inr d \<Rightarrow> Inr d)"

definition load_coverage_data ::
  "coverage_json file_state \<Rightarrow> coverage_json file_state
     \<Rightarrow> py_error + coverage_json \<times> coverage_json" where
  "load_coverage_data suite_a_file suite_b_file =
     (case load_or_empty suite_a_file of
        Inl e \<Rightarrow> Inl e
      | Inr suite_a_data \<Rightarrow>
          (case load_or_empty suite_b_file of
             Inl e \<Rightarrow> Inl e
           | Inr suite_b_data \<Rightarrow> Inr (suite_a_data, suite_b_data)))"

text \<open>
  \<open>sequential_results.json\<close> in \<open>main\<close> of lab6's analysis-script.py: a bare \<open>except\<close>
  replaces whatever fails by the default dictionary. The keys \<open>failing_tests\<close> and
  \<open>flaky_tests\<close> are the first two fields.
\<close>

record sequential_data =
  seq_failing_tests :: "string list"
  seq_flaky_tests :: "string list"
  execution_times :: "real list"

definition load_sequential_data :: "sequential_data file_state \<Rightarrow> sequential_data" where
  "load_sequential_data f =
     (case open_json f of
        Inl e \<Rightarrow> \<lparr>seq_failing_tests = [], seq_flaky_tests = [], execution_times = []\<rparr>
      | Inr d \<Rightarrow> d)"





subsection \<open>\<open>get_last_100_non_merge_commits\<close>\<close>

text \<open>\<open>s.split(sep, maxsplit)\<close>: at most \<open>maxsplit\<close> cuts, from the left.\<close>

fun split_max :: "char \<Rightarrow> nat \<Rightarrow> string \<Rightarrow> string list" where
  "split_max sep 0 s = [s]"
| "split_max sep (Suc n) [] = [[]]"
| "split_max sep (Suc n) (c # cs) =
     (if c = sep then [] # split_max sep n cs
      else (case split_max sep (Suc n) cs of
              [] \<Rightarrow> [[c]]
            | w # ws \<Rightarrow> (c # w) # ws))"

text \<open>
  \<open>int(s)\<close> for a string: surrounding whitespace is dropped, a sign may lead, and the
  digits may be grouped by single underscores; anything else is a \<open>ValueError\<close>. The
  whitespace of \<open>int\<close> is narrower than that of \<open>str.strip\<close>: of the code points below
  256 it is tab to carriage return, space, next line (133) and no-break space (160),
  without the separators 28 to 31. CPython from 3.11 on refuses more than 4300 digits.
\<close>

definition is_int_space :: "char \<Rightarrow> bool" where
  "is_int_space c =
     (let n = of_char c :: nat in (9 \<le> n \<and> n \<le> 13) \<or> n = 32 \<or> n = 133 \<or> n = 160)"

definition digits_value :: "string \<Rightarrow> nat" where
  "digits_value ds = foldl (\<lambda>a c. 10 * a + digit_val c) 0 ds"

definition py_int :: "string \<Rightarrow> py_error + int" where
  "py_int s =
     (let t = rev (dropWhile is_int_space (rev (dropWhile is_int_space s)));
          negative = (t \<noteq> [] \<and> hd t = CHR ''-'');
          body = (if t \<noteq> [] \<and> (hd t = CHR ''-'' \<or> hd t = CHR ''+'') then tl t else t);
          groups = split_on (CHR ''_'') body
      in if list_all (\<lambda>g. g \<noteq> [] \<and> list_all is_digit g) groups
            \<and> length (concat groups) \<le> 4300
         then Inr (if negative then - int (digits_value (concat groups))
                   else int (digits_value (concat groups)))
         else Inl ValueError)"

text \<open>
  The loop over the lines of the git log. \<open>strftime\<close> stands for
  \<open>datetime.fromtimestamp(t).strftime('%Y-%m-%d %H:%M:%S')\<close>, which depends on the
  local time zone and raises for a timestamp out of range. An exception in a line ends
  the function.
\<close>

fun collect_commits :: "(int \<Rightarrow> py_error + string) \<Rightarrow> string list \<Rightarrow> py_error + commit list" where
  "collect_commits strftime [] = Inr []"
| "collect_commits strftime (line # ls) =
     (if line \<noteq> [] then
        (case split_max (CHR '','') 3 line of
           [commit_hash, author_name, timestamp_text, subject] \<Rightarrow>
             (case py_int timestamp_text of
                Inl e \<Rightarrow> Inl e
              | Inr t \<Rightarrow>
                  (case strftime t of
                     Inl e \<Rightarrow> Inl e
                   | Inr d \<Rightarrow>
                       (case collect_commits strftime ls of
                          Inl e \<Rightarrow> Inl e
                        | Inr commits \<Rightarrow>
                            Inr (\<lparr>hash = commit_hash, author = author_name, timestamp = t,
                                  date = d, message = subject\<rparr> # commits))))
         | _ \<Rightarrow> collect_commits strftime ls)
      else collect_commits strftime ls)"

definition get_last_100_non_merge_commits ::
  "(int \<Rightarrow> py_error + string) \<Rightarrow> string \<Rightarrow> py_error + commit list" where
  "get_last_100_non_merge_commits strftime git_stdout =
     (case collect_commits strftime (split_on (CHR 0x0A) (strip git_stdout)) of
        Inl e \<Rightarrow> Inl e
      | Inr commits \<Rightarrow> Inr (take 100 commits))"

text \<open>
  A line that gives a commit: not empty, and four fields when cut at its first three
  commas. The record that belongs to such a line.
\<close>

definition is_commit_line :: "string \<Rightarrow> bool" where
  "is_commit_line l \<longleftrightarrow> l \<noteq> [] \<and> length (split_max (CHR '','') 3 l) = 4"

definition commit_of_line :: "(int \<Rightarrow> py_error + string) \<Rightarrow> string \<Rightarrow> commit \<Rightarrow> bool" where
  "commit_of_line strftime l c \<longleftrightarrow>
     (\<exists>ts. l = hash c @ '','' @ author c @ '','' @ ts @ '','' @ message c
          \<and> CHR '','' \<notin> set (hash c) \<and> CHR '','' \<notin> set (author c) \<and> CHR '','' \<notin> set ts
          \<and> py_int ts = Inr (timestamp c)
          \<and> strftime (timestamp c) = Inr (date c))"

definition line_converts :: "(int \<Rightarrow> py_error + string) \<Rightarrow> string \<Rightarrow> bool" where
  "line_converts strftime l \<longleftrightarrow>
     (case py_int (split_max (CHR '','') 3 l ! 2) of
        Inl e \<Rightarrow> False
      | Inr t \<Rightarrow> (case strftime t of Inl e \<Rightarrow> False | Inr d \<Rightarrow> True))"


section \<open>The unique\_cwes column of results.csv\<close>

text \<open>
  \<open>main\<close> of run\_bandit\_analysis.py writes \<open>','.join(metrics['unique_cwes'])\<close> as the
  last field of a row; \<open>load_repository_results\<close> of analyze\_results.py reads the file
  with \<open>pandas.read_csv\<close>, sorts the frame by the date column and applies
  \<open>lambda x: [] if pd.isna(x) else x.split(",") if x else []\<close> to the column.

  \<open>csv.writer\<close> and \<open>pandas.read_csv\<close> are library code. Their part here: the parser
  gives back the text of a field as it was written; pandas then types the whole column.
  An empty field is NaN. When every field that is not empty is a decimal integer the
  column is numeric and its cells are numbers; otherwise the cells are the strings.
  The fields of this column are digit strings joined by commas, so other spellings
  that pandas reads as numbers or as missing values do not occur.
\<close>

datatype cell = NaN | Text string | Number int

definition is_integer_field :: "string \<Rightarrow> bool" where
  "is_integer_field f \<longleftrightarrow> f \<noteq> [] \<and> list_all is_digit f"

definition read_csv_column :: "string list \<Rightarrow> cell list" where
  "read_csv_column column =
     (if list_all (\<lambda>f. f = [] \<or> is_integer_field f) column
      then map (\<lambda>f. if f = [] then NaN else Number (int (digits_value f))) column
      else map (\<lambda>f. if f = [] then NaN else Text f) column)"

text \<open>
  \<open>df.sort_values("date")\<close> computes from the date column the positions of the rows
  in date order and takes the rows at these positions. The positions are the
  parameter \<open>argsort\<close>: the default sort is not stable, so pandas does not fix the order
  of rows with the same date. Taking a position outside the frame raises.
\<close>

definition take_rows :: "nat list \<Rightarrow> 'a list \<Rightarrow> py_error + 'a list" where
  "take_rows positions xs =
     (if list_all (\<lambda>i. i < length xs) positions then Inr (map (\<lambda>i. xs ! i) positions)
      else Inl IndexError)"

text \<open>
  The lambda on one cell. A number has no \<open>split\<close>: unless it is zero, which is false,
  the call raises \<open>AttributeError\<close>.
\<close>

definition cwes_of_cell :: "cell \<Rightarrow> py_error + string list" where
  "cwes_of_cell x =
     (case x of
        NaN \<Rightarrow> Inr []
      | Text s \<Rightarrow> Inr (if s \<noteq> [] then split_on (CHR '','') s else [])
      | Number n \<Rightarrow> if n \<noteq> 0 then Inl AttributeError else Inr [])"

text \<open>\<open>Series.apply\<close>: the first cell that raises ends it.\<close>

fun apply_cells :: "cell list \<Rightarrow> py_error + string list list" where
  "apply_cells [] = Inr []"
| "apply_cells (x # xs) =
     (case cwes_of_cell x of
        Inl e \<Rightarrow> Inl e
      | Inr v \<Rightarrow> (case apply_cells xs of Inl e \<Rightarrow> Inl e | Inr vs \<Rightarrow> Inr (v # vs)))"

text \<open>
  The rows as \<open>main\<close> writes them, reduced to the date and the field of the CWE ids
  (already listed), and the \<open>unique_cwes\<close> column of the frame that
  \<open>load_repository_results\<close> returns.
\<close>

definition written_rows :: "('d \<times> string list) list \<Rightarrow> ('d \<times> string) list" where
  "written_rows commits = map (\<lambda>r. (fst r, join_with (CHR '','') (snd r))) commits"

definition load_unique_cwes ::
  "('d list \<Rightarrow> nat list) \<Rightarrow> ('d \<times> string) list \<Rightarrow> py_error + string list list" where
  "load_unique_cwes argsort rows =
     (case take_rows (argsort (map fst rows)) (read_csv_column (map snd rows)) of
        Inl e \<Rightarrow> Inl e
      | Inr cells \<Rightarrow> apply_cells cells)"

text \<open>
  One \<open>argsort\<close> that pandas may compute: by date, rows of the same date in the order
  of the file.
\<close>

definition stable_argsort :: "'d::linorder list \<Rightarrow> nat list" where
  "stable_argsort dates = sort_key (\<lambda>i. dates ! i) [0..<length dates]"


section \<open>Properties\<close>

subsection \<open>Introduced and fixed counts\<close>

lemma length_series_diff: "length (series_diff xs) = length xs"
  by (cases xs) simp_all

lemma series_diff_nth:
  "i < length xs \<Longrightarrow>
   series_diff xs ! i = (if i = 0 then None else Some (xs ! i - xs ! (i - 1)))"
proof (cases xs)
  case Nil
  assume "i < length xs"
  with Nil show ?thesis by simp
next
  case (Cons y ys)
  assume "i < length xs"
  with Cons show ?thesis by (cases i) simp_all
qed

text \<open>
  Claim C1. For every severity level and every row \<open>i\<close> of a repository's data frame,
  the introduced and the fixed value are non-negative and at most one of them is
  nonzero; at every row that has a previous row, with \<open>d\<close> the difference of the
  severity count to the previous row's, introduced is \<open>max(0, d)\<close>, fixed is
  \<open>max(0, -d)\<close> and introduced minus fixed is \<open>d\<close>.
\<close>

theorem severity_delta_split:
  assumes "i < length df"
  shows "0 \<le> severity_introduced lvl df ! i
       \<and> 0 \<le> severity_fixed lvl df ! i
       \<and> (severity_introduced lvl df ! i = 0 \<or> severity_fixed lvl df ! i = 0)
       \<and> (0 < i \<longrightarrow>
            (let d = severity lvl (df ! i) - severity lvl (df ! (i - 1))
             in severity_introduced lvl df ! i = max 0 d
              \<and> severity_fixed lvl df ! i = max 0 (- d)
              \<and> severity_introduced lvl df ! i - severity_fixed lvl df ! i = d))"
proof -
  let ?xs = "map (severity lvl) df"
  from assms have len: "i < length ?xs" by simp
  have ch: "severity_change lvl df ! i
              = (if i = 0 then None else Some (?xs ! i - ?xs ! (i - 1)))"
    unfolding severity_change_def using series_diff_nth [OF len] .
  have li: "i < length (severity_change lvl df)"
    unfolding severity_change_def using len by (simp add: length_series_diff)
  have intro: "severity_introduced lvl df ! i = introduced_of (severity_change lvl df ! i)"
    unfolding severity_introduced_def using li by simp
  have fixd: "severity_fixed lvl df ! i = fixed_of (severity_change lvl df ! i)"
    unfolding severity_fixed_def using li by simp
  show ?thesis
  proof (cases "i = 0")
    case True
    with ch intro fixd show ?thesis by simp
  next
    case False
    with assms have "i - 1 < length df" by simp
    with False assms ch intro fixd show ?thesis
      by (simp add: Let_def max_def)
  qed
qed

theorem severity_delta_split_witness:
  "(1::nat) < length
       [\<lparr>high_confidence = 0, medium_confidence = 0, low_confidence = 7,
         high_severity = 2, medium_severity = 0, low_severity = 5\<rparr>,
        \<lparr>high_confidence = 0, medium_confidence = 0, low_confidence = 6,
         high_severity = 5, medium_severity = 0, low_severity = 1\<rparr>]
   \<and> severity_introduced HIGH
       [\<lparr>high_confidence = 0, medium_confidence = 0, low_confidence = 7,
         high_severity = 2, medium_severity = 0, low_severity = 5\<rparr>,
        \<lparr>high_confidence = 0, medium_confidence = 0, low_confidence = 6,
         high_severity = 5, medium_severity = 0, low_severity = 1\<rparr>] ! 1 = 3
   \<and> severity_fixed LOW
       [\<lparr>high_confidence = 0, medium_confidence = 0, low_confidence = 7,
         high_severity = 2, medium_severity = 0, low_severity = 5\<rparr>,
        \<lparr>high_confidence = 0, medium_confidence = 0, low_confidence = 6,
         high_severity = 5, medium_severity = 0, low_severity = 1\<rparr>] ! 1 = 4"
proof -
  let ?df = "[\<lparr>high_confidence = 0, medium_confidence = 0, low_confidence = 7,
         high_severity = 2, medium_severity = 0, low_severity = 5\<rparr>,
        \<lparr>high_confidence = 0, medium_confidence = 0, low_confidence = 6,
         high_severity = 5, medium_severity = 0, low_severity = 1\<rparr>]"
  have h: "(1::nat) < length ?df" by simp
  from severity_delta_split [OF h, of HIGH] severity_delta_split [OF h, of LOW] h
  show ?thesis by (simp add: Let_def)
qed


subsection \<open>Lines of the pytest output\<close>

lemma str_in_iff_sublist: "str_in sub s \<longleftrightarrow> sublist sub s"
  by (induction s) (simp_all add: sublist_Cons_right)


subsection \<open>Failing and flaky tests\<close>

lemma split_on_not_Nil: "split_on sep s \<noteq> []"
  by (induction s) (auto split: list.splits)

lemma record_result_keys:
  "map fst (record_result tr n s) = (if n \<in> fst ` set tr then map fst tr else map fst tr @ [n])"
  by (induction tr n s rule: record_result.induct) auto

lemma record_result_distinct:
  "distinct (map fst tr) \<Longrightarrow> distinct (map fst (record_result tr n s))"
  by (simp add: record_result_keys)

lemma record_result_nonempty:
  "\<forall>p \<in> set tr. snd p \<noteq> [] \<Longrightarrow> \<forall>p \<in> set (record_result tr n s). snd p \<noteq> []"
  by (induction tr n s rule: record_result.induct) auto

lemma statuses_in_record_result:
  "statuses_in (record_result tr n s) t = statuses_in tr t @ (if t = n then [s] else [])"
  by (induction tr n s rule: record_result.induct) (auto simp: statuses_in_def)

lemma line_statuses_simps:
  "line_statuses t [] = []"
  "line_statuses t (l # ls) =
     (case seq_line_result l of None \<Rightarrow> [] | Some (n, s) \<Rightarrow> if n = t then [s] else [])
     @ line_statuses t ls"
  by (auto simp: line_statuses_def List.map_filter_simps split: option.splits)

lemma line_statuses_append:
  "line_statuses t (xs @ ys) = line_statuses t xs @ line_statuses t ys"
  by (simp add: line_statuses_def List.map_filter_def)

lemma wf_record_result: "wf_results tr \<Longrightarrow> wf_results (record_result tr n s)"
  unfolding wf_results_def using record_result_distinct record_result_nonempty by blast

lemma wf_seq_parse_line: "wf_results tr \<Longrightarrow> wf_results (seq_parse_line tr l)"
  by (auto simp: seq_parse_line_def wf_record_result split: option.splits)

lemma statuses_in_seq_parse_line:
  "statuses_in (seq_parse_line tr l) t = statuses_in tr t @ line_statuses t [l]"
  by (auto simp: seq_parse_line_def line_statuses_simps statuses_in_record_result split: option.splits)

lemma foldl_seq_parse_line:
  "wf_results tr \<Longrightarrow>
   wf_results (foldl seq_parse_line tr ls)
   \<and> statuses_in (foldl seq_parse_line tr ls) t = statuses_in tr t @ line_statuses t ls"
proof (induction ls arbitrary: tr)
  case Nil
  then show ?case by (simp add: line_statuses_simps)
next
  case (Cons l ls)
  from Cons.prems have "wf_results (seq_parse_line tr l)" by (rule wf_seq_parse_line)
  from Cons.IH [OF this] show ?case
    using line_statuses_append [of t "[l]" ls]
    by (simp add: statuses_in_seq_parse_line)
qed

lemma foldl_seq_parse_output:
  "wf_results tr \<Longrightarrow>
   wf_results (foldl seq_parse_output tr outs)
   \<and> statuses_in (foldl seq_parse_output tr outs) t
       = statuses_in tr t @ line_statuses t (concat (map stdout_lines outs))"
proof (induction outs arbitrary: tr)
  case Nil
  then show ?case by (simp add: line_statuses_simps)
next
  case (Cons out outs)
  from foldl_seq_parse_line [OF Cons.prems, of "stdout_lines out" t]
  have wf: "wf_results (seq_parse_output tr out)"
    and st: "statuses_in (seq_parse_output tr out) t = statuses_in tr t @ line_statuses t (stdout_lines out)"
    by (simp_all add: seq_parse_output_def)
  from Cons.IH [OF wf] st show ?case
    by (simp add: line_statuses_append)
qed

lemma classify_fst:
  "fst (classify tr) = map fst (filter (\<lambda>p. list_all (\<lambda>r. r = ''FAILED'') (snd p)) tr)"
  by (induction tr rule: classify.induct) (simp_all add: Let_def split_def)

lemma classify_snd:
  "snd (classify tr) =
     map fst (filter (\<lambda>p. \<not> list_all (\<lambda>r. r = ''FAILED'') (snd p)
                          \<and> ''PASSED'' \<in> set (snd p) \<and> ''FAILED'' \<in> set (snd p)) tr)"
  by (induction tr rule: classify.induct) (simp_all add: Let_def split_def)

lemma wf_results_member:
  assumes "wf_results tr"
  shows "(t, rs) \<in> set tr \<longleftrightarrow> rs \<noteq> [] \<and> statuses_in tr t = rs"
proof
  assume m: "(t, rs) \<in> set tr"
  with assms have "map_of tr t = Some rs" by (simp add: wf_results_def)
  moreover from m assms have "rs \<noteq> []" by (auto simp: wf_results_def)
  ultimately show "rs \<noteq> [] \<and> statuses_in tr t = rs" by (simp add: statuses_in_def)
next
  assume "rs \<noteq> [] \<and> statuses_in tr t = rs"
  then have "map_of tr t = Some rs" by (auto simp: statuses_in_def split: option.splits)
  then show "(t, rs) \<in> set tr" by (rule map_of_SomeD)
qed

lemma key_of_filter_iff:
  "t \<in> set (map fst (filter (\<lambda>p. Q (snd p)) tr)) \<longleftrightarrow> (\<exists>rs. (t, rs) \<in> set tr \<and> Q rs)"
  by (induction tr) auto

lemma wf_results_filter_iff:
  assumes "wf_results tr"
  shows "t \<in> set (map fst (filter (\<lambda>p. Q (snd p)) tr)) \<longleftrightarrow>
         statuses_in tr t \<noteq> [] \<and> Q (statuses_in tr t)"
proof -
  have "(\<exists>rs. (t, rs) \<in> set tr \<and> Q rs) \<longleftrightarrow>
        (\<exists>rs. (rs \<noteq> [] \<and> statuses_in tr t = rs) \<and> Q rs)"
    by (simp only: wf_results_member [OF assms])
  also have "\<dots> \<longleftrightarrow> statuses_in tr t \<noteq> [] \<and> Q (statuses_in tr t)"
    by auto
  finally show ?thesis by (simp only: key_of_filter_iff)
qed

lemma classify_failing_iff:
  assumes "wf_results tr"
  shows "t \<in> set (fst (classify tr)) \<longleftrightarrow>
         statuses_in tr t \<noteq> [] \<and> (\<forall>s \<in> set (statuses_in tr t). s = ''FAILED'')"
  using wf_results_filter_iff [OF assms, of t "\<lambda>rs. \<forall>s \<in> set rs. s = ''FAILED''"]
  unfolding classify_fst list_all_iff .

lemma classify_flaky_iff:
  assumes "wf_results tr"
  shows "t \<in> set (snd (classify tr)) \<longleftrightarrow>
         ''PASSED'' \<in> set (statuses_in tr t) \<and> ''FAILED'' \<in> set (statuses_in tr t)"
proof -
  define P where "P = ''PASSED''"
  define F where "F = ''FAILED''"
  have ne: "P \<noteq> F" by (simp add: P_def F_def)
  have "t \<in> set (snd (classify tr)) \<longleftrightarrow>
        statuses_in tr t \<noteq> []
        \<and> (\<not> (\<forall>s \<in> set (statuses_in tr t). s = F)
            \<and> P \<in> set (statuses_in tr t) \<and> F \<in> set (statuses_in tr t))"
    using wf_results_filter_iff [OF assms, of t
        "\<lambda>rs. \<not> (\<forall>s \<in> set rs. s = F) \<and> P \<in> set rs \<and> F \<in> set rs"]
    unfolding classify_snd list_all_iff P_def F_def .
  also have "\<dots> \<longleftrightarrow> P \<in> set (statuses_in tr t) \<and> F \<in> set (statuses_in tr t)"
    using ne by auto
  finally show ?thesis unfolding P_def F_def .
qed

text \<open>
  Claim C10. With at least one iteration \<open>run_sequential_tests\<close> returns; a test is in
  \<open>failing_tests\<close> iff statuses were recorded for it and all of them are FAILED, it is in
  \<open>flaky_tests\<close> iff its recorded statuses contain both PASSED and FAILED, and the two
  lists have no test in common.
\<close>

theorem failing_flaky_disjoint:
  assumes "outs \<noteq> []"
  shows "\<exists>failing flaky.
           run_sequential_tests outs = Inr (failing, flaky)
         \<and> (\<forall>t. t \<in> set failing \<longleftrightarrow>
                  recorded_statuses outs t \<noteq> []
                  \<and> (\<forall>s \<in> set (recorded_statuses outs t). s = ''FAILED''))
         \<and> (\<forall>t. t \<in> set flaky \<longleftrightarrow>
                  ''PASSED'' \<in> set (recorded_statuses outs t)
                  \<and> ''FAILED'' \<in> set (recorded_statuses outs t))
         \<and> set failing \<inter> set flaky = {}"
proof -
  let ?tr = "foldl seq_parse_output [] outs"
  have wf0: "wf_results []" by (simp add: wf_results_def)
  have wf: "wf_results ?tr" using foldl_seq_parse_output [OF wf0] by simp
  have st: "statuses_in ?tr t = recorded_statuses outs t" for t
    using foldl_seq_parse_output [OF wf0, of outs t]
    by (simp add: statuses_in_def recorded_statuses_def line_statuses_def)
  have run: "run_sequential_tests outs = Inr (fst (classify ?tr), snd (classify ?tr))"
    using assms by (simp add: run_sequential_tests_def)
  have f: "t \<in> set (fst (classify ?tr)) \<longleftrightarrow>
             recorded_statuses outs t \<noteq> []
             \<and> (\<forall>s \<in> set (recorded_statuses outs t). s = ''FAILED'')" for t
    using classify_failing_iff [OF wf, of t] by (simp add: st)
  have k: "t \<in> set (snd (classify ?tr)) \<longleftrightarrow>
             ''PASSED'' \<in> set (recorded_statuses outs t)
             \<and> ''FAILED'' \<in> set (recorded_statuses outs t)" for t
    using classify_flaky_iff [OF wf, of t] by (simp add: st)
  have d: "set (fst (classify ?tr)) \<inter> set (snd (classify ?tr)) = {}"
  proof (rule ccontr)
    assume "set (fst (classify ?tr)) \<inter> set (snd (classify ?tr)) \<noteq> {}"
    then obtain t where a: "t \<in> set (fst (classify ?tr))" and b: "t \<in> set (snd (classify ?tr))"
      by blast
    from a f have "\<forall>s \<in> set (recorded_statuses outs t). s = ''FAILED''" by blast
    moreover from b k have "''PASSED'' \<in> set (recorded_statuses outs t)" by blast
    ultimately show False by auto
  qed
  show ?thesis
  proof (intro exI conjI allI)
    show "run_sequential_tests outs = Inr (fst (classify ?tr), snd (classify ?tr))"
      by (rule run)
    show "t \<in> set (fst (classify ?tr)) \<longleftrightarrow>
             recorded_statuses outs t \<noteq> []
             \<and> (\<forall>s \<in> set (recorded_statuses outs t). s = ''FAILED'')" for t
      by (rule f)
    show "t \<in> set (snd (classify ?tr)) \<longleftrightarrow>
             ''PASSED'' \<in> set (recorded_statuses outs t)
             \<and> ''FAILED'' \<in> set (recorded_statuses outs t)" for t
      by (rule k)
    show "set (fst (classify ?tr)) \<inter> set (snd (classify ?tr)) = {}"
      by (rule d)
  qed
qed

theorem failing_flaky_disjoint_witness:
  "[''a PASSED x'', ''a FAILED x'', ''b ERROR x''] \<noteq> []
   \<and> (\<exists>failing flaky.
         run_sequential_tests [''a PASSED x'', ''a FAILED x'', ''b ERROR x''] = Inr (failing, flaky)
         \<and> set failing \<inter> set flaky = {})"
proof -
  have h: "[''a PASSED x'', ''a FAILED x'', ''b ERROR x''] \<noteq> []" by simp
  from failing_flaky_disjoint [OF h] obtain failing flaky where
    "run_sequential_tests [''a PASSED x'', ''a FAILED x'', ''b ERROR x''] = Inr (failing, flaky)"
    "set failing \<inter> set flaky = {}"
    by (elim exE conjE)
  then show ?thesis using h by (intro conjI exI)
qed


subsection \<open>What is recorded for a line\<close>












subsection \<open>Tpar and speedup\<close>

lemma run_parallel_tests_Inr:
  assumes "run_parallel_tests exec c n = Inr r"
  shows "config_of r = c \<and> times r = config_times exec c n \<and> times r \<noteq> []
         \<and> tpar r = sum_list (times r) / real (length (times r))"
  using assms
  by (auto simp: run_parallel_tests_def config_times_def Let_def comp_def split: if_splits)

lemma run_parallel_tests_returns:
  "0 < n \<Longrightarrow> \<exists>r. run_parallel_tests exec c n = Inr r"
  by (simp add: run_parallel_tests_def Let_def)

lemma run_parallel_tests_tpar:
  assumes "run_parallel_tests exec c 3 = Inr r"
  shows "tpar r = sum_list (config_times exec c 3) / 3"
  using run_parallel_tests_Inr [OF assms] by (simp add: config_times_def)

lemma run_configurations_Inr:
  "run_configurations exec tseq cs = Inr rs \<Longrightarrow>
   map config_of rs = cs \<and> (\<forall>r \<in> set rs. speedup_ok exec tseq r)"
proof (induction cs arbitrary: rs)
  case Nil
  then show ?case by simp
next
  case (Cons c cs)
  from Cons.prems obtain result s results where
    r: "run_parallel_tests exec c 3 = Inr result"
    and s: "calculate_speedup tseq (tpar result) = Inr s"
    and rest: "run_configurations exec tseq cs = Inr results"
    and rs: "rs = par_result.extend result \<lparr>speedup = s, tseq_used = tseq\<rparr> # results"
    by (auto split: sum.splits)
  from s have nz: "tpar result \<noteq> 0" and sv: "s = tseq / tpar result"
    by (auto simp: calculate_speedup_def split: if_splits)
  from run_parallel_tests_Inr [OF r] nz sv
  have "speedup_ok exec tseq (par_result.extend result \<lparr>speedup = s, tseq_used = tseq\<rparr>)"
    and "config_of (par_result.extend result \<lparr>speedup = s, tseq_used = tseq\<rparr>) = c"
    by (simp_all add: speedup_ok_def par_result.defs)
  with Cons.IH [OF rest] rs show ?case by simp
qed

lemma run_configurations_returns:
  "\<forall>c \<in> set cs. sum_list (config_times exec c 3) \<noteq> 0 \<Longrightarrow>
   \<exists>rs. run_configurations exec tseq cs = Inr rs"
proof (induction cs)
  case Nil
  then show ?case by simp
next
  case (Cons c cs)
  obtain result where r: "run_parallel_tests exec c 3 = Inr result"
    using run_parallel_tests_returns [of 3 exec c] by auto
  from Cons.prems have "sum_list (config_times exec c 3) \<noteq> 0" by simp
  with run_parallel_tests_tpar [OF r] have "tpar result \<noteq> 0" by simp
  then have s: "calculate_speedup tseq (tpar result) = Inr (tseq / tpar result)"
    by (simp add: calculate_speedup_def)
  from Cons obtain results where "run_configurations exec tseq cs = Inr results" by auto
  with r s show ?case by simp
qed

text \<open>
  Claim C2. Every result that \<open>execute_all_configurations\<close> returns belongs to one of
  the eight configurations, in order; its Tpar is the arithmetic mean of the three
  wall-clock times of that configuration and its speedup is Tseq divided by Tpar. The
  function returns whenever no configuration has times that sum to zero.
\<close>

theorem speedup_is_tseq_over_tpar:
  "(execute_all_configurations exec tseq = Inr rs \<longrightarrow>
      map config_of rs = configurations
      \<and> (\<forall>r \<in> set rs.
            times r = config_times exec (config_of r) 3
          \<and> times r \<noteq> []
          \<and> tpar r = sum_list (times r) / real (length (times r))
          \<and> tpar r \<noteq> 0
          \<and> speedup r = tseq / tpar r
          \<and> tseq_used r = tseq))
   \<and> ((\<forall>c \<in> set configurations. sum_list (config_times exec c 3) \<noteq> 0) \<longrightarrow>
        (\<exists>rs'. execute_all_configurations exec tseq = Inr rs'))"
  unfolding execute_all_configurations_def
  using run_configurations_Inr [of exec tseq configurations rs]
        run_configurations_returns [of configurations exec tseq]
  unfolding speedup_ok_def by blast

theorem speedup_is_tseq_over_tpar_witness:
  "\<exists>rs. execute_all_configurations (\<lambda>cmd i. (2, [])) 12 = Inr rs"
proof -
  have h: "\<forall>c \<in> set configurations. sum_list (config_times (\<lambda>cmd i. (2, [])) c 3) \<noteq> 0"
    by (simp add: config_times_def sum_list_triv)
  from speedup_is_tseq_over_tpar [of "\<lambda>cmd i. (2, [])" 12 "[]"]
  have "(\<forall>c \<in> set configurations. sum_list (config_times (\<lambda>cmd i. (2, [])) c 3) \<noteq> 0) \<longrightarrow>
        (\<exists>rs'. execute_all_configurations (\<lambda>cmd i. (2, [])) 12 = Inr rs')"
    by (rule conjunct2)
  from this h show ?thesis by (rule mp)
qed


subsection \<open>Coverage ratios\<close>

lemma bump_module_keys:
  "map fst (bump_module acc m cov tot) =
     (if m \<in> fst ` set acc then map fst acc else map fst acc @ [m])"
  by (induction acc m cov tot rule: bump_module.induct) auto

lemma bump_module_distinct:
  "distinct (map fst acc) \<Longrightarrow> distinct (map fst (bump_module acc m cov tot))"
  by (simp add: bump_module_keys)

lemma counts_of_bump_module:
  "counts_of (bump_module acc m cov tot) k =
     (if k = m then (fst (counts_of acc k) + cov, snd (counts_of acc k) + tot)
      else counts_of acc k)"
  by (induction acc m cov tot rule: bump_module.induct) (auto simp: counts_of_def)

lemma module_sums_Nil: "module_covered [] m = 0" "module_total [] m = 0"
  by (simp_all add: module_covered_def module_total_def)

lemma module_sums_Cons:
  "module_covered ((k, cov, tot) # es) m = (if k = m then cov else 0) + module_covered es m"
  "module_total ((k, cov, tot) # es) m = (if k = m then tot else 0) + module_total es m"
  by (simp_all add: module_covered_def module_total_def)

lemma bump_module_key_set:
  "fst ` set (bump_module acc m cov tot) = insert m (fst ` set acc)"
  by (induction acc m cov tot rule: bump_module.induct) auto

lemma foldl_module_step:
  "distinct (map fst acc) \<Longrightarrow>
   distinct (map fst (foldl module_step acc fs))
   \<and> fst ` set (foldl module_step acc fs) = fst ` set acc \<union> fst ` set (List.map_filter file_entry fs)
   \<and> counts_of (foldl module_step acc fs) m =
       (fst (counts_of acc m) + module_covered (List.map_filter file_entry fs) m,
        snd (counts_of acc m) + module_total (List.map_filter file_entry fs) m)"
proof (induction fs arbitrary: acc)
  case Nil
  then show ?case by (simp add: List.map_filter_simps module_sums_Nil)
next
  case (Cons f fs)
  show ?case
  proof (cases "file_entry f")
    case None
    with Cons.IH [OF Cons.prems] show ?thesis
      by (simp add: module_step_def List.map_filter_simps)
  next
    case (Some e)
    obtain k cov tot where e: "e = (k, cov, tot)" by (cases e) auto
    have step: "module_step acc f = bump_module acc k cov tot"
      using Some e by (simp add: module_step_def)
    have d: "distinct (map fst (bump_module acc k cov tot))"
      using Cons.prems by (rule bump_module_distinct)
    have mf: "List.map_filter file_entry (f # fs) = (k, cov, tot) # List.map_filter file_entry fs"
      using Some e by (simp add: List.map_filter_simps)
    note ih = Cons.IH [OF d]
    have "distinct (map fst (foldl module_step acc (f # fs)))"
      using ih step by simp
    moreover have "fst ` set (foldl module_step acc (f # fs))
        = fst ` set acc \<union> fst ` set (List.map_filter file_entry (f # fs))"
      using ih step unfolding mf by (simp add: bump_module_key_set)
    moreover have "counts_of (foldl module_step acc (f # fs)) m =
       (fst (counts_of acc m) + module_covered (List.map_filter file_entry (f # fs)) m,
        snd (counts_of acc m) + module_total (List.map_filter file_entry (f # fs)) m)"
      using ih step unfolding mf
      by (simp add: module_sums_Cons counts_of_bump_module)
    ultimately show ?thesis by (intro conjI)
  qed
qed

lemma add_coverage_Inr:
  "\<exists>mm. add_coverage acc = Inr mm
        \<and> list_all2 (\<lambda>p q. fst q = fst p \<and> with_coverage (snd p) (snd q)) acc mm"
proof (induction acc)
  case Nil
  show ?case by simp
next
  case (Cons p ms)
  obtain m a where p: "p = (m, a)" by (cases p) auto
  from Cons obtain rest where rest: "add_coverage ms = Inr rest"
    and all: "list_all2 (\<lambda>p q. fst q = fst p \<and> with_coverage (snd p) (snd q)) ms rest"
    by blast
  have cv: "(if total_lines a > 0 then truediv (covered_lines a) (total_lines a) else Inr 0)
            = Inr (if 0 < total_lines a then covered_lines a / total_lines a else 0)"
    by (simp add: truediv_def)
  have w: "with_coverage a (module_counts.extend a
             \<lparr>coverage = (if 0 < total_lines a then covered_lines a / total_lines a else 0)\<rparr>)"
    by (simp add: with_coverage_def module_counts.defs)
  have "add_coverage (p # ms) = Inr ((m, module_counts.extend a
             \<lparr>coverage = (if 0 < total_lines a then covered_lines a / total_lines a else 0)\<rparr>) # rest)"
    unfolding p add_coverage.simps cv rest by simp
  with all w p show ?case by simp
qed

lemma list_all2_in_set_right:
  "list_all2 R xs ys \<Longrightarrow> y \<in> set ys \<Longrightarrow> \<exists>x \<in> set xs. R x y"
  by (induction xs ys rule: list_all2_induct) auto

lemma list_all2_keys:
  "list_all2 (\<lambda>p q. fst q = fst p \<and> R p q) xs ys \<Longrightarrow> map fst ys = map fst xs"
  by (induction xs ys rule: list_all2_induct) simp_all

lemma extract_coverage_metrics_line:
  "\<exists>m. extract_coverage_metrics data = Inr m
      \<and> line_coverage m =
          (case totals data of
             None \<Rightarrow> 0
           | Some t \<Rightarrow>
               (case t ''num_statements'' of
                  None \<Rightarrow> 0
                | Some n \<Rightarrow> if 0 < n then dict_get t ''covered_lines'' 0 / n else 0))"
proof (cases "totals data")
  case None
  then show ?thesis by (simp add: extract_coverage_metrics_def)
next
  case (Some t)
  show ?thesis
  proof (cases "t ''num_statements''")
    case None
    with Some show ?thesis by (simp add: extract_coverage_metrics_def dict_get_def)
  next
    case (Some n)
    with \<open>totals data = Some t\<close> show ?thesis
      by (simp add: extract_coverage_metrics_def dict_get_def truediv_def)
  qed
qed

lemma extract_module_metrics_sums:
  "\<exists>mm. extract_module_metrics data = Inr mm
       \<and> distinct (map fst mm)
       \<and> fst ` set mm = fst ` set (kept_files data)
       \<and> (\<forall>p \<in> set mm.
             covered_lines (snd p) = module_covered (kept_files data) (fst p)
           \<and> total_lines (snd p) = module_total (kept_files data) (fst p)
           \<and> coverage (snd p) =
               (if 0 < total_lines (snd p) then covered_lines (snd p) / total_lines (snd p)
                else 0))"
proof -
  let ?acc = "foldl module_step [] (files data)"
  have d0: "distinct (map fst ([] :: (string \<times> module_counts) list))" by simp
  have dist: "distinct (map fst ?acc)"
    and keys: "fst ` set ?acc = fst ` set (kept_files data)"
    using foldl_module_step [OF d0, of "files data"] by (simp_all add: kept_files_def)
  have counts: "counts_of ?acc m = (module_covered (kept_files data) m, module_total (kept_files data) m)" for m
    using foldl_module_step [OF d0, of "files data" m] by (simp add: kept_files_def counts_of_def)
  from add_coverage_Inr [of ?acc] obtain mm where
    mm: "add_coverage ?acc = Inr mm"
    and all: "list_all2 (\<lambda>p q. fst q = fst p \<and> with_coverage (snd p) (snd q)) ?acc mm"
    by blast
  from list_all2_keys [OF all] have k: "map fst mm = map fst ?acc" .
  have props: "covered_lines (snd p) = module_covered (kept_files data) (fst p)
           \<and> total_lines (snd p) = module_total (kept_files data) (fst p)
           \<and> coverage (snd p) =
               (if 0 < total_lines (snd p) then covered_lines (snd p) / total_lines (snd p)
                else 0)" if "p \<in> set mm" for p
  proof -
    from list_all2_in_set_right [OF all that] obtain q where
      q: "q \<in> set ?acc" and f: "fst p = fst q" and w: "with_coverage (snd q) (snd p)"
      by blast
    from q have "(fst q, snd q) \<in> set ?acc" by simp
    with dist have "map_of ?acc (fst q) = Some (snd q)" by (rule map_of_is_SomeI)
    then have "counts_of ?acc (fst q) = (covered_lines (snd q), total_lines (snd q))"
      by (simp add: counts_of_def)
    with counts [of "fst q"] have
      "covered_lines (snd q) = module_covered (kept_files data) (fst q)"
      "total_lines (snd q) = module_total (kept_files data) (fst q)"
      by simp_all
    with w f show ?thesis by (simp add: with_coverage_def)
  qed
  have "fst ` set mm = fst ` set ?acc"
    using k by (metis list.set_map)
  with keys have ks: "fst ` set mm = fst ` set (kept_files data)" by simp
  from dist k have dm: "distinct (map fst mm)" by simp
  have e: "extract_module_metrics data = Inr mm"
    using mm by (simp add: extract_module_metrics_def)
  from e dm ks props show ?thesis by blast
qed

lemma file_entry_path_module:
  "file_entry fe =
     (case path_module (fst fe) of
        None \<Rightarrow> None
      | Some m \<Rightarrow>
          Some (m, summary_value (snd fe) ''covered_lines'',
                   summary_value (snd fe) ''num_statements''))"
proof -
  obtain p fd where fe: "fe = (p, fd)" by (cases fe) auto
  have sk: "skip_file p \<longleftrightarrow>
        sublist ''/tests/'' p \<or> sublist ''pynguin_tests'' p \<or> suffix ''__init__.py'' p"
    unfolding skip_file_def str_in_iff_sublist ..
  have sv: "dict_get (case fd of None \<Rightarrow> Map.empty | Some s \<Rightarrow> s) k 0 = summary_value fd k" for k
    by (cases fd) (simp_all add: dict_get_def summary_value_def)
  have pm: "path_module p =
      (if skip_file p then None
       else (case module_search p of
               None \<Rightarrow> None
             | Some m \<Rightarrow> if m = ''tests'' \<or> m = ''pynguin_tests'' then None else Some m))"
    unfolding path_module_def sk by (rule refl)
  show ?thesis
  proof (cases "skip_file p")
    case True
    then show ?thesis unfolding fe by (simp add: file_entry_def pm)
  next
    case False
    show ?thesis
    proof (cases "module_search p")
      case None
      with False show ?thesis unfolding fe by (simp add: file_entry_def pm)
    next
      case (Some m)
      with False show ?thesis unfolding fe by (simp add: file_entry_def pm sv Let_def)
    qed
  qed
qed

lemma kept_module_covered:
  "module_covered (List.map_filter file_entry fs) m =
     sum_list (map (\<lambda>fe. summary_value (snd fe) ''covered_lines'')
                (filter (\<lambda>fe. path_module (fst fe) = Some m) fs))"
proof (induction fs)
  case Nil
  show ?case by (simp add: module_sums_Nil)
next
  case (Cons f fs)
  show ?case
  proof (cases "path_module (fst f)")
    case None
    with Cons show ?thesis by (simp add: file_entry_path_module)
  next
    case (Some k)
    with Cons show ?thesis by (simp add: file_entry_path_module module_sums_Cons)
  qed
qed

lemma kept_module_total:
  "module_total (List.map_filter file_entry fs) m =
     sum_list (map (\<lambda>fe. summary_value (snd fe) ''num_statements'')
                (filter (\<lambda>fe. path_module (fst fe) = Some m) fs))"
proof (induction fs)
  case Nil
  show ?case by (simp add: module_sums_Nil)
next
  case (Cons f fs)
  show ?case
  proof (cases "path_module (fst f)")
    case None
    with Cons show ?thesis by (simp add: file_entry_path_module)
  next
    case (Some k)
    with Cons show ?thesis by (simp add: file_entry_path_module module_sums_Cons)
  qed
qed

lemma kept_module_keys:
  "fst ` set (List.map_filter file_entry fs) =
     {m. \<exists>fe \<in> set fs. path_module (fst fe) = Some m}"
proof (induction fs)
  case Nil
  show ?case by simp
next
  case (Cons f fs)
  show ?case
  proof (cases "path_module (fst f)")
    case None
    with Cons show ?thesis by (auto simp: file_entry_path_module)
  next
    case (Some k)
    with Cons show ?thesis by (auto simp: file_entry_path_module)
  qed
qed

lemma extract_module_metrics_summary:
  "\<exists>mm. extract_module_metrics data = Inr mm
       \<and> distinct (map fst mm)
       \<and> fst ` set mm = {m. \<exists>fe \<in> set (files data). path_module (fst fe) = Some m}
       \<and> (\<forall>p \<in> set mm.
             covered_lines (snd p) = module_sum data ''covered_lines'' (fst p)
           \<and> total_lines (snd p) = module_sum data ''num_statements'' (fst p)
           \<and> coverage (snd p) =
               (if 0 < module_sum data ''num_statements'' (fst p)
                then module_sum data ''covered_lines'' (fst p)
                     / module_sum data ''num_statements'' (fst p)
                else 0))"
proof -
  from extract_module_metrics_sums [of data] obtain mm where
    e: "extract_module_metrics data = Inr mm" and d: "distinct (map fst mm)"
    and k: "fst ` set mm = fst ` set (kept_files data)"
    and a: "\<forall>p \<in> set mm.
             covered_lines (snd p) = module_covered (kept_files data) (fst p)
           \<and> total_lines (snd p) = module_total (kept_files data) (fst p)
           \<and> coverage (snd p) =
               (if 0 < total_lines (snd p) then covered_lines (snd p) / total_lines (snd p)
                else 0)"
    by blast
  have c: "module_covered (kept_files data) m = module_sum data ''covered_lines'' m" for m
    unfolding kept_files_def module_sum_def by (rule kept_module_covered)
  have t: "module_total (kept_files data) m = module_sum data ''num_statements'' m" for m
    unfolding kept_files_def module_sum_def by (rule kept_module_total)
  have k': "fst ` set mm = {m. \<exists>fe \<in> set (files data). path_module (fst fe) = Some m}"
    using k unfolding kept_files_def kept_module_keys .
  have a': "covered_lines (snd p) = module_sum data ''covered_lines'' (fst p)
           \<and> total_lines (snd p) = module_sum data ''num_statements'' (fst p)
           \<and> coverage (snd p) =
               (if 0 < module_sum data ''num_statements'' (fst p)
                then module_sum data ''covered_lines'' (fst p)
                     / module_sum data ''num_statements'' (fst p)
                else 0)" if "p \<in> set mm" for p
    using a that by (simp add: c t)
  from e d k' a' show ?thesis by blast
qed

lemma path_module_eval:
  "path_module p =
      (if skip_file p then None
       else (case module_search p of
               None \<Rightarrow> None
             | Some m \<Rightarrow> if m = ''tests'' \<or> m = ''pynguin_tests'' then None else Some m))"
  unfolding path_module_def skip_file_def str_in_iff_sublist by (rule refl)

text \<open>
  Claim C5. \<open>extract_coverage_metrics\<close> and \<open>extract_module_metrics\<close> never fail on a
  division by zero. The line coverage read from \<open>totals\<close> is \<open>covered_lines\<close> divided by
  \<open>num_statements\<close> when \<open>num_statements\<close> is positive, and 0 when it is zero or absent
  (or \<open>totals\<close> is). Per module, the covered lines are the sum of
  \<open>files.<path>.summary.covered_lines\<close> and the total lines the sum of
  \<open>files.<path>.summary.num_statements\<close> over the files counted under the module; the
  coverage is the quotient of the two sums when the second is positive and 0 otherwise.
\<close>

theorem line_coverage_ratio:
  "(\<exists>m. extract_coverage_metrics data = Inr m
      \<and> line_coverage m =
          (case totals data of
             None \<Rightarrow> 0
           | Some t \<Rightarrow>
               (case t ''num_statements'' of
                  None \<Rightarrow> 0
                | Some n \<Rightarrow> if 0 < n then dict_get t ''covered_lines'' 0 / n else 0)))
   \<and> (\<exists>mm. extract_module_metrics data = Inr mm
       \<and> distinct (map fst mm)
       \<and> fst ` set mm = {m. \<exists>fe \<in> set (files data). path_module (fst fe) = Some m}
       \<and> (\<forall>p \<in> set mm.
             covered_lines (snd p) = module_sum data ''covered_lines'' (fst p)
           \<and> total_lines (snd p) = module_sum data ''num_statements'' (fst p)
           \<and> coverage (snd p) =
               (if 0 < module_sum data ''num_statements'' (fst p)
                then module_sum data ''covered_lines'' (fst p)
                     / module_sum data ''num_statements'' (fst p)
                else 0)))"
  using extract_coverage_metrics_line [of data] extract_module_metrics_summary [of data]
  by (rule conjI)

theorem line_coverage_ratio_witness:
  "(\<exists>m. extract_coverage_metrics
           \<lparr>totals = Some [''covered_lines'' \<mapsto> 3, ''num_statements'' \<mapsto> 4],
            files = [(''algorithms/arrays/a.py'',
                        Some [''covered_lines'' \<mapsto> 3, ''num_statements'' \<mapsto> 4]),
                     (''algorithms/tests/t.py'',
                        Some [''covered_lines'' \<mapsto> 9, ''num_statements'' \<mapsto> 9]),
                     (''algorithms/arrays/b.py'',
                        Some [''covered_lines'' \<mapsto> 1, ''num_statements'' \<mapsto> 4])]\<rparr> = Inr m
        \<and> line_coverage m = 3 / 4)
   \<and> (\<exists>mm m. extract_module_metrics
           \<lparr>totals = Some [''covered_lines'' \<mapsto> 3, ''num_statements'' \<mapsto> 4],
            files = [(''algorithms/arrays/a.py'',
                        Some [''covered_lines'' \<mapsto> 3, ''num_statements'' \<mapsto> 4]),
                     (''algorithms/tests/t.py'',
                        Some [''covered_lines'' \<mapsto> 9, ''num_statements'' \<mapsto> 9]),
                     (''algorithms/arrays/b.py'',
                        Some [''covered_lines'' \<mapsto> 1, ''num_statements'' \<mapsto> 4])]\<rparr> = Inr mm
        \<and> (''arrays'', m) \<in> set mm
        \<and> covered_lines m = 4 \<and> total_lines m = 8 \<and> coverage m = 1 / 2)"
proof -
  let ?D = "\<lparr>totals = Some [''covered_lines'' \<mapsto> 3, ''num_statements'' \<mapsto> (4::real)],
            files = [(''algorithms/arrays/a.py'',
                        Some [''covered_lines'' \<mapsto> 3, ''num_statements'' \<mapsto> (4::real)]),
                     (''algorithms/tests/t.py'',
                        Some [''covered_lines'' \<mapsto> 9, ''num_statements'' \<mapsto> 9]),
                     (''algorithms/arrays/b.py'',
                        Some [''covered_lines'' \<mapsto> 1, ''num_statements'' \<mapsto> 4])]\<rparr>"
  have pa: "path_module ''algorithms/arrays/a.py'' = Some ''arrays''"
    and pt: "path_module ''algorithms/tests/t.py'' = None"
    and pb: "path_module ''algorithms/arrays/b.py'' = Some ''arrays''"
    by (simp_all add: path_module_eval skip_file_def suffix_def)
  have sc: "module_sum ?D ''covered_lines'' ''arrays'' = 4"
    and st: "module_sum ?D ''num_statements'' ''arrays'' = 8"
    by (simp_all add: module_sum_def pa pt pb summary_value_def)
  from line_coverage_ratio [of ?D] obtain m mm where
    m: "extract_coverage_metrics ?D = Inr m" "line_coverage m = 3 / 4"
    and mm: "extract_module_metrics ?D = Inr mm"
    and keys: "fst ` set mm = {k. \<exists>fe \<in> set (files ?D). path_module (fst fe) = Some k}"
    and vals: "\<forall>p \<in> set mm.
             covered_lines (snd p) = module_sum ?D ''covered_lines'' (fst p)
           \<and> total_lines (snd p) = module_sum ?D ''num_statements'' (fst p)
           \<and> coverage (snd p) =
               (if 0 < module_sum ?D ''num_statements'' (fst p)
                then module_sum ?D ''covered_lines'' (fst p)
                     / module_sum ?D ''num_statements'' (fst p)
                else 0)"
    by (auto simp: dict_get_def)
  have "''arrays'' \<in> {k. \<exists>fe \<in> set (files ?D). path_module (fst fe) = Some k}"
    by (simp add: pa)
  with keys have "''arrays'' \<in> fst ` set mm" by simp
  then obtain p where p: "p \<in> set mm" "fst p = ''arrays''" by auto
  with vals sc st have "covered_lines (snd p) = 4" "total_lines (snd p) = 8"
    "coverage (snd p) = 1 / 2" by simp_all
  moreover from p have "(''arrays'', snd p) \<in> set mm" by (metis prod.collapse)
  ultimately show ?thesis using m mm by blast
qed


subsection \<open>Counts of a Bandit report\<close>

lemma level_name_inject: "level_name a = level_name b \<longleftrightarrow> a = b"
  by (cases a; cases b) simp_all

lemma count_finding_confidence:
  "confidence lvl (count_finding m r) =
     confidence lvl m + (if issue_confidence r = Some (level_name lvl) then 1 else 0)"
  by (cases lvl)
     (simp_all add: count_finding_def collect_cwe_def count_severity_def count_confidence_def
        split: option.splits)

lemma count_finding_severity:
  "severity lvl (count_finding m r) =
     severity lvl m + (if issue_severity r = Some (level_name lvl) then 1 else 0)"
  by (cases lvl)
     (simp_all add: count_finding_def collect_cwe_def count_severity_def count_confidence_def
        split: option.splits)

lemma foldl_count_confidence:
  "confidence lvl (foldl count_finding m rs) =
     confidence lvl m + int (length (filter (\<lambda>r. issue_confidence r = Some (level_name lvl)) rs))"
  by (induction rs arbitrary: m) (simp_all add: count_finding_confidence)

lemma foldl_count_severity:
  "severity lvl (foldl count_finding m rs) =
     severity lvl m + int (length (filter (\<lambda>r. issue_severity r = Some (level_name lvl)) rs))"
  by (induction rs arbitrary: m) (simp_all add: count_finding_severity)

lemma level_filters_disjoint:
  assumes "a \<noteq> b"
  shows "\<not> (v = Some (level_name a) \<and> v = Some (level_name b))"
proof
  assume "v = Some (level_name a) \<and> v = Some (level_name b)"
  then have "Some (level_name a) = Some (level_name b)" by (elim conjE) (rule trans [OF sym])
  then have "level_name a = level_name b" by (simp only: option.inject)
  then have "a = b" by (simp only: level_name_inject)
  with assms show False by contradiction
qed

lemma three_filters_le:
  assumes "\<And>x. \<not> (P x \<and> Q x)" "\<And>x. \<not> (P x \<and> R x)" "\<And>x. \<not> (Q x \<and> R x)"
  shows "length (filter P xs) + length (filter Q xs) + length (filter R xs) \<le> length xs"
proof (induction xs)
  case Nil
  show ?case by simp
next
  case (Cons x xs)
  with assms [of x] show ?case by auto
qed

text \<open>
  Claim C4. For a Bandit report that was read, \<open>parse_bandit_results\<close> returns metrics
  in which, for each level, the confidence count is the number of findings with that
  \<open>issue_confidence\<close> and the severity count the number with that \<open>issue_severity\<close>; the
  three confidence counts, and the three severity counts, sum to at most the number
  of findings.
\<close>

theorem bandit_counts:
  "\<exists>m. parse_bandit_results (Content data) = Some m
     \<and> confidence lvl m =
         int (length (filter (\<lambda>r. issue_confidence r = Some (level_name lvl)) (findings_of data)))
     \<and> severity lvl m =
         int (length (filter (\<lambda>r. issue_severity r = Some (level_name lvl)) (findings_of data)))
     \<and> high_confidence m + medium_confidence m + low_confidence m
         \<le> int (length (findings_of data))
     \<and> high_severity m + medium_severity m + low_severity m
         \<le> int (length (findings_of data))"
proof -
  let ?rs = "findings_of data"
  let ?m = "foldl count_finding initial_metrics ?rs"
  have p: "parse_bandit_results (Content data) = Some ?m"
    by (simp add: parse_bandit_results_def open_json_def findings_of_def)
  have c0: "confidence l initial_metrics = 0" and s0: "severity l initial_metrics = 0" for l
    by (cases l; simp add: initial_metrics_def)+
  have c: "confidence l ?m =
         int (length (filter (\<lambda>r. issue_confidence r = Some (level_name l)) ?rs))" for l
    using foldl_count_confidence [of l initial_metrics ?rs] by (simp add: c0)
  have s: "severity l ?m =
         int (length (filter (\<lambda>r. issue_severity r = Some (level_name l)) ?rs))" for l
    using foldl_count_severity [of l initial_metrics ?rs] by (simp add: s0)
  have "length (filter (\<lambda>r. issue_confidence r = Some (level_name HIGH)) ?rs)
        + length (filter (\<lambda>r. issue_confidence r = Some (level_name MEDIUM)) ?rs)
        + length (filter (\<lambda>r. issue_confidence r = Some (level_name LOW)) ?rs) \<le> length ?rs"
    by (rule three_filters_le; rule level_filters_disjoint; simp)
  with c [of HIGH] c [of MEDIUM] c [of LOW]
  have cs: "high_confidence ?m + medium_confidence ?m + low_confidence ?m \<le> int (length ?rs)"
    unfolding confidence.simps by linarith
  have "length (filter (\<lambda>r. issue_severity r = Some (level_name HIGH)) ?rs)
        + length (filter (\<lambda>r. issue_severity r = Some (level_name MEDIUM)) ?rs)
        + length (filter (\<lambda>r. issue_severity r = Some (level_name LOW)) ?rs) \<le> length ?rs"
    by (rule three_filters_le; rule level_filters_disjoint; simp)
  with s [of HIGH] s [of MEDIUM] s [of LOW]
  have ss: "high_severity ?m + medium_severity ?m + low_severity ?m \<le> int (length ?rs)"
    unfolding severity.simps by linarith
  from p c [of lvl] s [of lvl] cs ss show ?thesis by (intro exI conjI)
qed


subsection \<open>Missing files\<close>

text \<open>
  Claim C3, as stated, fails: for a missing Bandit output file \<open>parse_bandit_results\<close>
  returns \<open>None\<close>, not a metrics dictionary.
\<close>

theorem bandit_missing_file_is_None:
  "parse_bandit_results Missing = None
   \<and> parse_bandit_results Missing \<noteq> Some initial_metrics"
  by (simp add: parse_bandit_results_def open_json_def)

text \<open>
  Claim C3, amended. None of the three loaders raises on a missing file:
  \<open>load_coverage_data\<close> yields the empty dictionary for each missing coverage JSON,
  the analysis \<open>main\<close> takes the default dictionary with three empty lists for a
  missing \<open>sequential_results.json\<close>, and \<open>parse_bandit_results\<close> returns \<open>None\<close>, no
  dictionary, for a Bandit output file that is missing, unreadable or not JSON.
\<close>

theorem missing_file_defaults:
  "load_coverage_data Missing Missing = Inr (empty_coverage, empty_coverage)
   \<and> load_coverage_data Missing (Content b) = Inr (empty_coverage, b)
   \<and> load_coverage_data (Content a) Missing = Inr (a, empty_coverage)
   \<and> load_sequential_data Missing
       = \<lparr>seq_failing_tests = [], seq_flaky_tests = [], execution_times = []\<rparr>
   \<and> parse_bandit_results Missing = None
   \<and> parse_bandit_results Unreadable = None
   \<and> parse_bandit_results Malformed = None"
  by (simp add: load_coverage_data_def load_or_empty_def load_sequential_data_def
        parse_bandit_results_def open_json_def)

subsection \<open>The commit loop\<close>

lemma process_commit_cases:
  assumes "\<not> interrupts bandit c"
  shows "process_commit listing bandit (rows, printed) c =
           Inr (rows @ List.map_filter (commit_row listing bandit) [c],
                printed @ List.map_filter (commit_message bandit) [c])"
proof (cases "bandit (hash c)")
  case (Inl e)
  with assms have "is_Exception e" by (simp add: interrupts_def)
  with Inl show ?thesis
    by (simp add: process_commit_def commit_row_def commit_metrics_def commit_message_def
         )
next
  case (Inr f)
  then show ?thesis
    by (cases "parse_bandit_results f")
       (simp_all add: process_commit_def commit_row_def commit_metrics_def commit_message_def
         )
qed

lemma commit_loop_state:
  assumes "\<forall>c \<in> set commits. \<not> interrupts bandit c"
  shows "commit_loop listing bandit (rows, printed) commits =
           Inr (rows @ List.map_filter (commit_row listing bandit) commits,
                printed @ List.map_filter (commit_message bandit) commits)"
  using assms
proof (induction commits arbitrary: rows printed)
  case Nil
  show ?case by simp
next
  case (Cons c cs)
  from Cons.prems have n: "\<not> interrupts bandit c" and r: "\<forall>c \<in> set cs. \<not> interrupts bandit c"
    by simp_all
  show ?case
    unfolding commit_loop.simps process_commit_cases [OF n]
    using Cons.IH [OF r]
    by (simp split: option.splits)
qed

lemma map_filter_filter_None:
  "\<forall>x \<in> set xs. \<not> P x \<longrightarrow> f x = None \<Longrightarrow>
   List.map_filter f (filter P xs) = List.map_filter f xs"
  by (induction xs) (auto split: option.splits)

text \<open>
  Claim C8. When no commit ends the loop with an error that is not an \<open>Exception\<close>, the
  loop runs over all commits: the rows it appends are the rows of the commits for which
  \<open>parse_bandit_results\<close> returned metrics, in the order of the commits, and every other
  commit adds a message and no row. Leaving the commits without metrics out gives the
  same rows.
\<close>

theorem failing_commit_adds_no_row:
  assumes "\<forall>c \<in> set commits. \<not> interrupts bandit c"
  shows "commit_loop listing bandit (rows, printed) commits =
           Inr (rows @ List.map_filter (commit_row listing bandit) commits,
                printed @ List.map_filter (commit_message bandit) commits)
       \<and> List.map_filter (commit_row listing bandit)
            (filter (\<lambda>c. commit_metrics bandit c \<noteq> None) commits)
           = List.map_filter (commit_row listing bandit) commits
       \<and> (\<forall>c \<in> set commits.
             (commit_row listing bandit c = None \<longleftrightarrow> commit_metrics bandit c = None)
           \<and> (commit_message bandit c = None \<longleftrightarrow> commit_metrics bandit c \<noteq> None))"
proof (intro conjI ballI)
  show "commit_loop listing bandit (rows, printed) commits =
           Inr (rows @ List.map_filter (commit_row listing bandit) commits,
                printed @ List.map_filter (commit_message bandit) commits)"
    using assms by (rule commit_loop_state)
  show "List.map_filter (commit_row listing bandit)
            (filter (\<lambda>c. commit_metrics bandit c \<noteq> None) commits)
           = List.map_filter (commit_row listing bandit) commits"
    by (rule map_filter_filter_None) (simp add: commit_row_def)
next
  fix c
  show "commit_row listing bandit c = None \<longleftrightarrow> commit_metrics bandit c = None"
    by (simp add: commit_row_def)
  show "commit_message bandit c = None \<longleftrightarrow> commit_metrics bandit c \<noteq> None"
    by (simp add: commit_message_def commit_metrics_def split: sum.splits option.splits)
qed

theorem failing_commit_adds_no_row_witness:
  "\<exists>rows printed.
     commit_loop sorted_list_of_set
       (\<lambda>h. if h = ''a'' then Inl OSError else Inr (Content \<lparr>results = Some []\<rparr>))
       ([], [])
       [\<lparr>hash = ''a'', author = ''x'', timestamp = 1, date = ''d'', message = ''m''\<rparr>,
        \<lparr>hash = ''b'', author = ''x'', timestamp = 2, date = ''d'', message = ''m''\<rparr>]
       = Inr (rows, printed)
     \<and> length rows = 1 \<and> printed = [Error_processing_commit ''a'' OSError]"
proof -
  let ?W = "\<lambda>h. if h = ''a'' then Inl OSError else Inr (Content \<lparr>results = Some []\<rparr>)"
  let ?cs = "[\<lparr>hash = ''a'', author = ''x'', timestamp = 1, date = ''d'', message = ''m''\<rparr>,
        \<lparr>hash = ''b'', author = ''x'', timestamp = 2, date = ''d'', message = ''m''\<rparr>]"
  have h: "\<forall>c \<in> set ?cs. \<not> interrupts ?W c"
    by (simp add: interrupts_def is_Exception_def)
  have r: "length (List.map_filter (commit_row sorted_list_of_set ?W) ?cs) = 1"
    by (simp add: commit_row_def commit_metrics_def
          parse_bandit_results_def open_json_def)
  have m: "List.map_filter (commit_message ?W) ?cs = [Error_processing_commit ''a'' OSError]"
    by (simp add: commit_message_def
          parse_bandit_results_def open_json_def)
  from failing_commit_adds_no_row [OF h, of sorted_list_of_set "[]" "[]"]
  have "commit_loop sorted_list_of_set ?W ([], []) ?cs =
          Inr ([] @ List.map_filter (commit_row sorted_list_of_set ?W) ?cs,
               [] @ List.map_filter (commit_message ?W) ?cs)"
    by (rule conjunct1)
  with r m show ?thesis by simp
qed


subsection \<open>The commits of the git log\<close>

lemma split_max_not_Nil: "split_max sep n s \<noteq> []"
  by (induction sep n s rule: split_max.induct) (auto split: list.splits)

lemma join_with_Cons_head:
  "ws \<noteq> [] \<Longrightarrow> join_with sep ((c # hd ws) # tl ws) = c # join_with sep ws"
  by (cases ws; cases "tl ws") auto

lemma join_with_Nil_head: "ws \<noteq> [] \<Longrightarrow> join_with sep ([] # ws) = sep # join_with sep ws"
  by (cases ws; cases "tl ws") auto

lemma split_max_join: "join_with sep (split_max sep n s) = s"
proof (induction sep n s rule: split_max.induct)
  case (1 sep s)
  show ?case by simp
next
  case (2 sep n)
  show ?case by simp
next
  case (3 sep n c cs)
  show ?case
  proof (cases "c = sep")
    case True
    with 3 show ?thesis by (simp add: join_with_Nil_head split_max_not_Nil)
  next
    case False
    obtain w ws where r: "split_max sep (Suc n) cs = w # ws"
      using split_max_not_Nil [of sep "Suc n" cs] by (cases "split_max sep (Suc n) cs") auto
    with 3 False have "join_with sep (w # ws) = cs" by simp
    with False r join_with_Cons_head [of "w # ws" sep c] show ?thesis by simp
  qed
qed

lemma split_max_butlast: "w \<in> set (butlast (split_max sep n s)) \<Longrightarrow> sep \<notin> set w"
proof (induction sep n s arbitrary: w rule: split_max.induct)
  case (1 sep s)
  then show ?case by simp
next
  case (2 sep n)
  then show ?case by simp
next
  case (3 sep n c cs)
  show ?case
  proof (cases "c = sep")
    case True
    with 3 show ?thesis by (auto simp: split_max_not_Nil)
  next
    case False
    obtain v vs where r: "split_max sep (Suc n) cs = v # vs"
      using split_max_not_Nil [of sep "Suc n" cs] by (cases "split_max sep (Suc n) cs") auto
    show ?thesis
    proof (cases vs)
      case Nil
      with 3 False r show ?thesis by simp
    next
      case (Cons u us)
      with "3.prems" False r have "w = c # v \<or> w \<in> set (butlast (u # us))" by auto
      moreover have "v \<in> set (butlast (split_max sep (Suc n) cs))" using r Cons by simp
      then have "sep \<notin> set v" using "3.IH"(2) [OF False] by blast
      moreover have "x \<in> set (butlast (u # us)) \<Longrightarrow> sep \<notin> set x" for x
        using "3.IH"(2) [OF False, of x] r Cons by simp
      ultimately show ?thesis using False by auto
    qed
  qed
qed

lemma four_fields:
  assumes "split_max (CHR '','') 3 l = [a, b, t, m]"
  shows "l = a @ '','' @ b @ '','' @ t @ '','' @ m
         \<and> CHR '','' \<notin> set a \<and> CHR '','' \<notin> set b \<and> CHR '','' \<notin> set t"
proof -
  from split_max_join [of "CHR '',''" 3 l] assms have "l = a @ '','' @ b @ '','' @ t @ '','' @ m"
    by simp
  moreover from split_max_butlast [of _ "CHR '',''" 3 l] assms
  have "CHR '','' \<notin> set a" "CHR '','' \<notin> set b" "CHR '','' \<notin> set t" by simp_all
  ultimately show ?thesis by simp
qed

lemma length_four: "length xs = 4 \<longleftrightarrow> (\<exists>a b c d. xs = [a, b, c, d])"
proof
  assume "length xs = 4"
  then show "\<exists>a b c d. xs = [a, b, c, d]"
    by (cases xs; cases "tl xs"; cases "tl (tl xs)"; cases "tl (tl (tl xs))") auto
qed auto

lemma collect_commits_Cons:
  "collect_commits f (l # ls) =
     (if is_commit_line l then
        (case py_int (split_max (CHR '','') 3 l ! 2) of
           Inl e \<Rightarrow> Inl e
         | Inr t \<Rightarrow>
             (case f t of
                Inl e \<Rightarrow> Inl e
              | Inr d \<Rightarrow>
                  (case collect_commits f ls of
                     Inl e \<Rightarrow> Inl e
                   | Inr cs \<Rightarrow>
                       Inr (\<lparr>hash = split_max (CHR '','') 3 l ! 0,
                             author = split_max (CHR '','') 3 l ! 1,
                             timestamp = t, date = d,
                             message = split_max (CHR '','') 3 l ! 3\<rparr> # cs))))
      else collect_commits f ls)"
proof (cases "is_commit_line l")
  case True
  then obtain a b c d where s: "split_max (CHR '','') 3 l = [a, b, c, d]" and ne: "l \<noteq> []"
    unfolding is_commit_line_def length_four by blast
  have eq: "collect_commits f (l # ls) =
        (case py_int c of
           Inl e \<Rightarrow> Inl e
         | Inr t \<Rightarrow>
             (case f t of
                Inl e \<Rightarrow> Inl e
              | Inr dd \<Rightarrow>
                  (case collect_commits f ls of
                     Inl e \<Rightarrow> Inl e
                   | Inr cs \<Rightarrow>
                       Inr (\<lparr>hash = a, author = b, timestamp = t, date = dd, message = d\<rparr> # cs))))"
    unfolding collect_commits.simps s using ne by simp
  show ?thesis unfolding eq by (simp add: True s cong: sum.case_cong)
next
  case False
  show ?thesis
  proof (cases "l = []")
    case True
    with False show ?thesis by simp
  next
    case ne: False
    with False have "length (split_max (CHR '','') 3 l) \<noteq> 4" by (simp add: is_commit_line_def)
    then have "\<not> (\<exists>a b c d. split_max (CHR '','') 3 l = [a, b, c, d])"
      by (simp only: length_four [symmetric] not_False_eq_True)
    then have "(case split_max (CHR '','') 3 l of
           [a, b, c, d] \<Rightarrow> g a b c d
         | _ \<Rightarrow> dflt) = dflt" for g and dflt :: "py_error + commit list"
      by (auto split: list.splits)
    with False ne show ?thesis unfolding collect_commits.simps by simp
  qed
qed

declare collect_commits.simps(2) [simp del]

lemma collect_commits_Inr:
  "collect_commits f ls = Inr cs \<Longrightarrow>
   list_all2 (commit_of_line f) (filter is_commit_line ls) cs"
proof (induction ls arbitrary: cs)
  case Nil
  then show ?case by simp
next
  case (Cons l ls)
  show ?case
  proof (cases "is_commit_line l")
    case False
    with Cons show ?thesis by (simp only: collect_commits_Cons if_False filter.simps)
  next
    case True
    then obtain a b c d where s: "split_max (CHR '','') 3 l = [a, b, c, d]"
      unfolding is_commit_line_def length_four by blast
    from Cons.prems True obtain t dd rest where
      t: "py_int c = Inr t" and dd: "f t = Inr dd"
      and rest: "collect_commits f ls = Inr rest"
      and cs: "cs = \<lparr>hash = a, author = b, timestamp = t, date = dd, message = d\<rparr> # rest"
      unfolding collect_commits_Cons s by (auto split: sum.splits)
    from four_fields [OF s] t dd
    have "commit_of_line f l \<lparr>hash = a, author = b, timestamp = t, date = dd, message = d\<rparr>"
      unfolding commit_of_line_def by auto
    with Cons.IH [OF rest] True cs show ?thesis by simp
  qed
qed

lemma collect_commits_returns:
  "\<forall>l \<in> set (filter is_commit_line ls). line_converts f l \<Longrightarrow>
   \<exists>cs. collect_commits f ls = Inr cs"
proof (induction ls)
  case Nil
  show ?case by simp
next
  case (Cons l ls)
  then obtain rest where rest: "collect_commits f ls = Inr rest" by auto
  show ?case
  proof (cases "is_commit_line l")
    case False
    with rest show ?thesis by (simp only: collect_commits_Cons if_False) simp
  next
    case True
    with Cons.prems have "line_converts f l" by simp
    then obtain t d where "py_int (split_max (CHR '','') 3 l ! 2) = Inr t" "f t = Inr d"
      unfolding line_converts_def by (auto split: sum.splits)
    with True rest show ?thesis by (simp add: collect_commits_Cons)
  qed
qed

text \<open>
  Claim C9. When \<open>get_last_100_non_merge_commits\<close> returns, it returns at most 100
  records; they belong, one to one and in the order of the git log, to the first 100
  lines that are not empty and have four fields when cut at their first three commas;
  the hash, the author and the timestamp text of a record hold no comma and the message
  is the whole rest of the line; the timestamp is the integer of its text and the date
  is its formatted value. The function returns when the timestamp of every such line
  converts.
\<close>

theorem commits_from_git_log:
  "(get_last_100_non_merge_commits strftime out = Inr cs \<longrightarrow>
      length cs \<le> 100
      \<and> list_all2 (commit_of_line strftime)
           (take 100 (filter is_commit_line (stdout_lines out))) cs)
   \<and> ((\<forall>l \<in> set (filter is_commit_line (stdout_lines out)). line_converts strftime l) \<longrightarrow>
        (\<exists>cs'. get_last_100_non_merge_commits strftime out = Inr cs'))"
proof (intro conjI impI)
  assume a: "get_last_100_non_merge_commits strftime out = Inr cs"
  then obtain all where c: "collect_commits strftime (stdout_lines out) = Inr all"
    and cs: "cs = take 100 all"
    unfolding get_last_100_non_merge_commits_def stdout_lines_def by (auto split: sum.splits)
  from cs show "length cs \<le> 100" by simp
  from collect_commits_Inr [OF c] cs
  show "list_all2 (commit_of_line strftime)
           (take 100 (filter is_commit_line (stdout_lines out))) cs"
    by (simp add: list_all2_takeI)
next
  assume "\<forall>l \<in> set (filter is_commit_line (stdout_lines out)). line_converts strftime l"
  from collect_commits_returns [OF this]
  show "\<exists>cs'. get_last_100_non_merge_commits strftime out = Inr cs'"
    unfolding get_last_100_non_merge_commits_def stdout_lines_def by auto
qed

theorem commits_from_git_log_witness:
  "\<exists>cs. get_last_100_non_merge_commits (\<lambda>t. Inr ''d'') ''h1,ann,5,fix a, b'' = Inr cs
        \<and> length cs \<le> 100"
proof -
  have h: "\<forall>l \<in> set (filter is_commit_line (stdout_lines ''h1,ann,5,fix a, b'')).
             line_converts (\<lambda>t. Inr ''d'') l"
    by code_simp
  obtain cs where r: "get_last_100_non_merge_commits (\<lambda>t. Inr ''d'') ''h1,ann,5,fix a, b'' = Inr cs"
    using commits_from_git_log [of "\<lambda>t. Inr ''d''" "''h1,ann,5,fix a, b''" "[]"] h by blast
  from commits_from_git_log [of "\<lambda>t. Inr ''d''" "''h1,ann,5,fix a, b''" cs] r
  have "length cs \<le> 100" by blast
  with r show ?thesis by blast
qed


subsection \<open>Writing and reading the unique\_cwes column\<close>

lemma split_on_no_sep: "sep \<notin> set x \<Longrightarrow> split_on sep x = [x]"
  by (induction x) auto

lemma split_on_append_sep:
  "sep \<notin> set x \<Longrightarrow> split_on sep (x @ sep # rest) = x # split_on sep rest"
  by (induction x) (auto simp: split_on_not_Nil split: list.splits)

lemma split_on_join_with:
  "xs \<noteq> [] \<Longrightarrow> \<forall>x \<in> set xs. sep \<notin> set x \<Longrightarrow> split_on sep (join_with sep xs) = xs"
proof (induction sep xs rule: join_with.induct)
  case (1 sep)
  then show ?case by simp
next
  case (2 sep x)
  then show ?case by (simp add: split_on_no_sep)
next
  case (3 sep x y ys)
  then show ?case by (simp add: split_on_append_sep)
qed

lemma join_with_empty_iff:
  "\<forall>x \<in> set xs. x \<noteq> [] \<Longrightarrow> join_with sep xs = [] \<longleftrightarrow> xs = []"
  by (induction sep xs rule: join_with.induct) auto

lemma cwes_of_text_field:
  assumes "\<forall>c \<in> set cs. c \<noteq> [] \<and> CHR '','' \<notin> set c"
  shows "cwes_of_cell (if join_with (CHR '','') cs = [] then NaN
                       else Text (join_with (CHR '','') cs)) = Inr cs"
proof (cases "cs = []")
  case True
  then show ?thesis by (simp add: cwes_of_cell_def)
next
  case False
  with assms have "join_with (CHR '','') cs \<noteq> []" by (simp add: join_with_empty_iff)
  moreover from False assms have "split_on (CHR '','') (join_with (CHR '','') cs) = cs"
    by (simp add: split_on_join_with)
  ultimately show ?thesis by (simp add: cwes_of_cell_def)
qed

lemma apply_cells_map:
  "\<forall>x \<in> set xs. cwes_of_cell x = Inr (f x) \<Longrightarrow> apply_cells xs = Inr (map f xs)"
  by (induction xs) simp_all

text \<open>
  When some commit of the file has a field that is not a number (two or more CWE ids,
  say) the column holds strings, and the loaded column holds the lists as they were
  written, in the order of the sort.
\<close>

lemma text_column_roundtrip:
  assumes wf: "\<forall>r \<in> set commits. \<forall>c \<in> set (snd r). c \<noteq> [] \<and> CHR '','' \<notin> set c"
    and strs: "\<not> list_all (\<lambda>f. f = [] \<or> is_integer_field f) (map snd (written_rows commits))"
    and pos: "list_all (\<lambda>i. i < length commits) (argsort (map fst commits))"
  shows "load_unique_cwes argsort (written_rows commits)
           = Inr (map (\<lambda>i. snd (commits ! i)) (argsort (map fst commits)))"
proof -
  let ?cells = "map (\<lambda>r. if join_with (CHR '','') (snd r) = [] then NaN
                          else Text (join_with (CHR '','') (snd r))) commits"
  let ?idx = "argsort (map fst commits)"
  have dates: "map fst (written_rows commits) = map fst commits"
    by (simp add: written_rows_def comp_def)
  have cells: "read_csv_column (map snd (written_rows commits)) = ?cells"
    using strs by (simp add: read_csv_column_def written_rows_def comp_def)
  have taken: "take_rows ?idx ?cells = Inr (map (\<lambda>i. ?cells ! i) ?idx)"
    using pos by (simp add: take_rows_def)
  have each: "cwes_of_cell (?cells ! i) = Inr (snd (commits ! i))" if "i < length commits" for i
  proof -
    from that have "commits ! i \<in> set commits" by simp
    with wf have "\<forall>c \<in> set (snd (commits ! i)). c \<noteq> [] \<and> CHR '','' \<notin> set c" by blast
    from cwes_of_text_field [OF this] that show ?thesis by simp
  qed
  define f where "f = (\<lambda>x. case cwes_of_cell x of Inr v \<Rightarrow> v | Inl e \<Rightarrow> [])"
  have fi: "cwes_of_cell (?cells ! i) = Inr (f (?cells ! i))" "f (?cells ! i) = snd (commits ! i)"
    if "i \<in> set ?idx" for i
  proof -
    from that pos have "i < length commits" by (simp add: list_all_iff)
    from each [OF this] show "cwes_of_cell (?cells ! i) = Inr (f (?cells ! i))"
      and "f (?cells ! i) = snd (commits ! i)"
      by (simp_all add: f_def)
  qed
  have "\<forall>x \<in> set (map (\<lambda>i. ?cells ! i) ?idx). cwes_of_cell x = Inr (f x)"
    using fi(1) by auto
  from apply_cells_map [OF this]
  have "apply_cells (map (\<lambda>i. ?cells ! i) ?idx) = Inr (map (\<lambda>i. f (?cells ! i)) ?idx)"
    by (simp add: comp_def)
  also have "map (\<lambda>i. f (?cells ! i)) ?idx = map (\<lambda>i. snd (commits ! i)) ?idx"
    using fi(2) by (intro map_cong refl)
  finally have "apply_cells (map (\<lambda>i. ?cells ! i) ?idx) = Inr (map (\<lambda>i. snd (commits ! i)) ?idx)" .
  with taken cells dates show ?thesis by (simp add: load_unique_cwes_def)
qed


lemma stable_argsort_example: "stable_argsort [3, 1, 2 :: int] = [1, 2, 0]"
  by (simp add: stable_argsort_def upt_rec)

lemma text_column_roundtrip_example:
  "load_unique_cwes stable_argsort
     (written_rows [(3 :: int, [''78'']), (1, []), (2, [''78'', ''703''])])
     = Inr [[], [''78'', ''703''], [''78'']]"
proof -
  let ?commits = "[(3 :: int, [''78'']), (1, []), (2, [''78'', ''703''])]"
  have idx: "stable_argsort (map fst ?commits) = [1, 2, 0]"
    using stable_argsort_example by simp
  have "load_unique_cwes stable_argsort (written_rows ?commits)
          = Inr (map (\<lambda>i. snd (?commits ! i)) (stable_argsort (map fst ?commits)))"
    by (rule text_column_roundtrip)
       (simp_all add: written_rows_def is_integer_field_def is_digit_def stable_argsort_example)
  then show ?thesis unfolding idx by simp
qed

text \<open>
  Claim C7 against the code. A file in which every commit has at most one CWE id has a
  numeric column, and loading it raises instead of giving the lists back: here a file
  with the single commit whose list is \<open>['78']\<close>.
\<close>

theorem single_cwe_column_raises:
  "load_unique_cwes stable_argsort (written_rows [(1 :: int, [''78''])]) = Inl AttributeError"
  by (simp add: load_unique_cwes_def written_rows_def read_csv_column_def is_integer_field_def
        is_digit_def digits_value_def digit_val_def cwes_of_cell_def take_rows_def
        stable_argsort_def)

end
